theory Spec2Isabelle
  imports Complex_Main "HOL-Library.Log_Nat"
begin

section \<open>Python strings\<close>

text \<open>
  A Python \<open>str\<close> is modelled as a \<open>string\<close>, one \<open>char\<close> per code point, for the code
  points 0 to 255 (Latin-1). On that range the functions below are the ones of Python:
  \<open>str.isspace\<close> holds of the code points 9 to 13, 28 to 32, 133 and 160, and
  \<open>str.lower\<close> adds 32 to the code points 65 to 90 and 192 to 222 (215 apart).
\<close>

definition isspace :: "char \<Rightarrow> bool" where
  "isspace c =
     (let n = (of_char c :: nat)
      in (9 \<le> n \<and> n \<le> 13) \<or> (28 \<le> n \<and> n \<le> 32) \<or> n = 133 \<or> n = 160)"

definition isupper :: "char \<Rightarrow> bool" where
  "isupper c =
     (let n = (of_char c :: nat)
      in (65 \<le> n \<and> n \<le> 90) \<or> (192 \<le> n \<and> n \<le> 222 \<and> n \<noteq> 215))"

definition lower_char :: "char \<Rightarrow> char" where
  "lower_char c = (if isupper c then char_of ((of_char c :: nat) + 32) else c)"

definition lower :: "string \<Rightarrow> string" where
  "lower s = map lower_char s"

text \<open>\<open>s.split()\<close>: the maximal runs of non-whitespace characters, left to right.
  The first argument is the word being read.\<close>

fun split_acc :: "string \<Rightarrow> string \<Rightarrow> string list" where
  "split_acc w [] = (if w = [] then [] else [w])"
| "split_acc w (c # cs) =
     (if isspace c then (if w = [] then split_acc [] cs else w # split_acc [] cs)
      else split_acc (w @ [c]) cs)"

definition split :: "string \<Rightarrow> string list" where
  "split s = split_acc [] s"

text \<open>\<open>sep.join(ws)\<close>.\<close>

fun join :: "string \<Rightarrow> string list \<Rightarrow> string" where
  "join sep [] = []"
| "join sep [w] = w"
| "join sep (w # v # ws) = w @ sep @ join sep (v # ws)"

text \<open>\<open>s.strip()\<close>: whitespace removed at both ends.\<close>

definition strip :: "string \<Rightarrow> string" where
  "strip s = rev (dropWhile isspace (rev (dropWhile isspace s)))"

text \<open>\<open>s.startswith(p)\<close> and \<open>sub in s\<close>.\<close>

fun startswith :: "string \<Rightarrow> string \<Rightarrow> bool" where
  "startswith s [] = True"
| "startswith [] (p # ps) = False"
| "startswith (c # cs) (p # ps) = (c = p \<and> startswith cs ps)"

fun str_in :: "string \<Rightarrow> string \<Rightarrow> bool" where
  "str_in sub [] = (sub = [])"
| "str_in sub (c # cs) = (startswith (c # cs) sub \<or> str_in sub cs)"

section \<open>Text normalizer\<close>

text \<open>\<open>normalize_text\<close>: \<^verbatim>\<open>' '.join(text.lower().split())\<close>.\<close>

definition normalize_text :: "string \<Rightarrow> string" where
  "normalize_text text = join '' '' (split (lower text))"

text \<open>The lists that \<open>split\<close> returns: every word is non-empty and free of whitespace.\<close>

definition word_list :: "string list \<Rightarrow> bool" where
  "word_list ws = (\<forall>w\<in>set ws. w \<noteq> [] \<and> (\<forall>c\<in>set w. \<not> isspace c))"

section \<open>Regular expressions\<close>

text \<open>
  The patterns of \<open>parse_user_command\<close> use literals, character classes, \<open>\s\<close>, \<open>$\<close>,
  greedy \<open>?\<close>, alternation, one capturing group and the lazy \<open>+?\<close> on a character class.
  Python's \<open>re\<close> is a backtracking matcher: it tries the alternatives of a pattern in a
  fixed order and keeps the first way that lets the whole pattern match. \<open>matches r st\<close>
  lists every way of matching \<open>r\<close> at the start of the input in that order, each with the
  input that is left and the text of group 1, so the head of the list is the match that
  \<open>re\<close> finds.
\<close>

datatype regex =
    Lit string
  | Cls "char \<Rightarrow> bool"
  | Eos
  | Opt regex
  | Alt regex regex
  | Seq regex regex
  | LazyPlus "char \<Rightarrow> bool"
  | Group regex

type_synonym mstate = "string \<times> string option"

text \<open>\<open>[...]+?\<close>: the inputs left after one, two, ... characters of the class, fewest first.\<close>

fun lazy_plus :: "(char \<Rightarrow> bool) \<Rightarrow> string \<Rightarrow> string list" where
  "lazy_plus p [] = []"
| "lazy_plus p (c # cs) = (if p c then cs # lazy_plus p cs else [])"

text \<open>\<open>$\<close> (without \<open>re.MULTILINE\<close>) holds at the end of the string and before a newline
  that ends the string.\<close>

fun matches :: "regex \<Rightarrow> mstate \<Rightarrow> mstate list" where
  "matches (Lit l) (s, g) = (if startswith s l then [(drop (length l) s, g)] else [])"
| "matches (Cls p) (s, g) = (case s of [] \<Rightarrow> [] | c # cs \<Rightarrow> if p c then [(cs, g)] else [])"
| "matches Eos (s, g) = (if s = [] \<or> s = [CHR 0x0A] then [(s, g)] else [])"
| "matches (Opt r) st = matches r st @ [st]"
| "matches (Alt r1 r2) st = matches r1 st @ matches r2 st"
| "matches (Seq r1 r2) st = concat (map (matches r2) (matches r1 st))"
| "matches (LazyPlus p) (s, g) = map (\<lambda>rest. (rest, g)) (lazy_plus p s)"
| "matches (Group r) (s, g) =
     map (\<lambda>(rest, _). (rest, Some (take (length s - length rest) s))) (matches r (s, g))"

text \<open>\<open>re.search(pattern, s)\<close>: the first match at the leftmost position that has one;
  \<open>None\<close> when there is none, otherwise \<open>Some\<close> of what \<open>match.group(1)\<close> is.\<close>

fun search :: "regex \<Rightarrow> string \<Rightarrow> string option option" where
  "search r [] = (case matches r ([], None) of [] \<Rightarrow> None | m # _ \<Rightarrow> Some (snd m))"
| "search r (c # cs) =
     (case matches r (c # cs, None) of [] \<Rightarrow> search r cs | m # _ \<Rightarrow> Some (snd m))"

fun seqs :: "regex list \<Rightarrow> regex" where
  "seqs [] = Lit []"
| "seqs [r] = r"
| "seqs (r # rs) = Seq r (seqs rs)"

fun alts :: "string list \<Rightarrow> regex" where
  "alts [] = Lit []"
| "alts [l] = Lit l"
| "alts (l # ls) = Alt (Lit l) (alts ls)"

section \<open>Command classifier\<close>

datatype py_error = AttributeError | KeyError

text \<open>The dictionary that \<open>parse_user_command\<close> returns, by its \<open>type\<close>; \<open>Section\<close> and
  \<open>Navigation\<close> carry \<open>target\<close> and \<open>original_text\<close>, \<open>Unknown\<close> carries \<open>original_text\<close>.\<close>

datatype command =
    Back
  | DescribeImages
  | Summarize
  | Section string string
  | Navigation string string
  | Unknown string

definition special_commands :: "(command \<times> string list) list" where
  "special_commands =
     [(Back, [''back'', ''previous page'', ''go back'', ''return'']),
      (DescribeImages, [''describe image'', ''show image'', ''what is in the image'']),
      (Summarize, [''summarize'', ''summary'', ''summarize this'', ''summarize page'',
                   ''can you summarize''])]"

text \<open>The classes \<^verbatim>\<open>["\']\<close> and \<^verbatim>\<open>[^"\']\<close>.\<close>

definition is_quote :: "char \<Rightarrow> bool" where
  "is_quote c = (c = CHR 0x22 \<or> c = CHR 0x27)"

definition not_quote :: "char \<Rightarrow> bool" where
  "not_quote c = (\<not> is_quote c)"

definition section_patterns :: "regex list" where
  "section_patterns =
     [seqs [Opt (Lit ''can you ''), alts [''go'', ''show'', ''navigate'', ''take''], Lit '' '',
            Opt (Lit ''me ''), Opt (Lit ''to ''), Opt (Lit ''the ''), Opt (Cls is_quote),
            Group (LazyPlus not_quote), Opt (Cls is_quote), Lit '' section''],
      seqs [alts [''show'', ''display'', ''read'', ''view'', ''open''], Lit '' '',
            Opt (Lit ''the ''), Opt (Cls is_quote),
            Group (LazyPlus not_quote), Opt (Cls is_quote), Lit '' section''],
      seqs [Opt (Cls is_quote), Group (LazyPlus not_quote), Opt (Cls is_quote),
            Lit '' section'']]"

definition navigation_patterns :: "regex list" where
  "navigation_patterns =
     [seqs [Opt (Lit ''can you ''), alts [''go'', ''navigate'', ''take''], Lit '' '',
            Opt (Lit ''me ''), Opt (Lit ''to ''), Opt (Lit ''the ''), Opt (Cls is_quote),
            Group (LazyPlus not_quote), Opt (Cls is_quote), Alt (Cls isspace) Eos],
      seqs [alts [''show'', ''display'', ''open''], Lit '' '',
            Opt (Lit ''the ''), Opt (Cls is_quote),
            Group (LazyPlus not_quote), Opt (Cls is_quote), Alt (Cls isspace) Eos],
      seqs [alts [''click'', ''select'', ''choose''], Lit '' '',
            Opt (Lit ''on ''), Opt (Lit ''the ''), Opt (Cls is_quote),
            Group (LazyPlus not_quote), Opt (Cls is_quote), Alt (Cls isspace) Eos]]"

text \<open>\<^verbatim>\<open>for pattern in patterns: match = re.search(pattern, s); if match: ...\<close>: the
  first pattern that matches, with its group 1.\<close>

fun first_match :: "regex list \<Rightarrow> string \<Rightarrow> string option option" where
  "first_match [] s = None"
| "first_match (p # ps) s = (case search p s of None \<Rightarrow> first_match ps s | Some g \<Rightarrow> Some g)"

text \<open>\<open>match.group(1).strip()\<close>: \<open>group(1)\<close> is \<open>None\<close> for a group that took no part in the
  match, and \<open>None.strip()\<close> raises.\<close>

definition group_strip :: "string option \<Rightarrow> py_error + string" where
  "group_strip g = (case g of None \<Rightarrow> Inl AttributeError | Some t \<Rightarrow> Inr (strip t))"

definition parse_user_command :: "string \<Rightarrow> py_error + command" where
  "parse_user_command user_input =
     (let input_lower = normalize_text user_input
      in case find (\<lambda>(cmd_type, phrases). list_ex (\<lambda>phrase. str_in phrase input_lower) phrases)
                special_commands of
           Some (cmd_type, _) \<Rightarrow> Inr cmd_type
         | None \<Rightarrow>
             (case first_match section_patterns input_lower of
                Some g \<Rightarrow>
                  (case group_strip g of
                     Inl e \<Rightarrow> Inl e
                   | Inr section_name \<Rightarrow> Inr (Section section_name section_name))
              | None \<Rightarrow>
                  (case first_match navigation_patterns input_lower of
                     Some g \<Rightarrow>
                       (case group_strip g of
                          Inl e \<Rightarrow> Inl e
                        | Inr target \<Rightarrow> Inr (Navigation target target))
                   | None \<Rightarrow> Inr (Unknown user_input))))"

section \<open>Matcher\<close>

subsection \<open>Floating-point division\<close>

text \<open>
  A Python float is an IEEE 754 double; a finite double is a rational number, and it is
  modelled as that number. \<open>a / b\<close> on two integers is the double nearest to the
  quotient, ties going to the even significand (\<open>round_double\<close>). Doubles are compared
  by their values, also with an integer such as the first \<open>best_score\<close>, 0.

  \<open>floor_log2 q\<close> is the exponent \<open>e\<close> with \<open>2 ^ e \<le> q < 2 ^ (e + 1)\<close>, for \<open>q > 0\<close>. A
  double has a significand of 53 bits, so the spacing of the doubles around \<open>q\<close> is
  \<open>2 ^ (e - 52)\<close>, and \<open>2 ^ -1074\<close> below the smallest normal double. Quotients beyond the
  largest double, where Python raises \<open>OverflowError\<close>, do not occur below: a score is at
  most 1.
\<close>

definition two_to :: "int \<Rightarrow> rat" where
  "two_to e = (if 0 \<le> e then 2 ^ nat e else 1 / 2 ^ nat (- e))"

definition round_half_even :: "rat \<Rightarrow> int" where
  "round_half_even x =
     (let f = \<lfloor>x\<rfloor>; d = x - of_int f
      in if d < 1 / 2 then f
         else if 1 / 2 < d then f + 1
         else if even f then f else f + 1)"

definition floor_log2 :: "rat \<Rightarrow> int" where
  "floor_log2 q =
     (let (a, b) = quotient_of q; e = bitlen a - bitlen b
      in if two_to e \<le> q then e else e - 1)"

definition round_double :: "rat \<Rightarrow> rat" where
  "round_double q =
     (if q = 0 then 0
      else
        let a = \<bar>q\<bar>;
            p = max (floor_log2 a - 52) (- 1074)
        in sgn q * of_int (round_half_even (a / two_to p)) * two_to p)"

subsection \<open>Best match\<close>

text \<open>
  \<open>find_best_match\<close>. The loop carries \<open>best_match\<close> and \<open>best_score\<close>; a candidate whose
  normal form is the target returns at once. The division is made only where the target
  has a word, so the divisor is not 0. The threshold is any number (a double or an
  integer), by its value.
\<close>

fun find_best_match_loop ::
  "string \<Rightarrow> rat \<Rightarrow> string list \<Rightarrow> string option \<times> rat \<Rightarrow> string option \<times> rat" where
  "find_best_match_loop target threshold [] (best_match, best_score) = (best_match, best_score)"
| "find_best_match_loop target threshold (candidate # rest) (best_match, best_score) =
     (let candidate_text = normalize_text candidate
      in if target = candidate_text then (Some candidate, 1)
         else
           let target_words = set (split target);
               candidate_words = set (split candidate_text)
           in if target_words \<noteq> {} then
                let overlap = round_double
                                (of_nat (card (target_words \<inter> candidate_words))
                                   / of_nat (card target_words))
                in if overlap > best_score \<and> overlap \<ge> threshold
                   then find_best_match_loop target threshold rest (Some candidate, overlap)
                   else find_best_match_loop target threshold rest (best_match, best_score)
              else find_best_match_loop target threshold rest (best_match, best_score))"

definition find_best_match :: "string \<Rightarrow> string list \<Rightarrow> rat \<Rightarrow> string option \<times> rat" where
  "find_best_match target candidates threshold =
     find_best_match_loop (normalize_text target) threshold candidates (None, 0)"

text \<open>The score of the specification: the share of the target's words (a set) that are
  words of the candidate, both normalized, as the double that the division gives (0 for
  a target without words, where the code does not divide). It is used to state what the
  loop returns.\<close>

definition words_of :: "string \<Rightarrow> string set" where
  "words_of text = set (split (normalize_text text))"

definition overlap_ratio :: "string \<Rightarrow> string \<Rightarrow> rat" where
  "overlap_ratio target candidate =
     round_double
       (of_nat (card (words_of target \<inter> words_of candidate)) / of_nat (card (words_of target)))"

text \<open>The doubles that Python writes \<open>0.1\<close> and \<open>0.3333333333333333\<close>.\<close>

definition double_0_1 :: rat where
  "double_0_1 = 3602879701896397 / 36028797018963968"

definition double_1_3 :: rat where
  "double_1_3 = 6004799503160661 / 18014398509481984"

section \<open>Documents\<close>

text \<open>
  The tree that \<open>BeautifulSoup(page_source, 'html.parser')\<close> builds: a tag has a name
  (in lower case), its attributes and its children; a text node holds a string and the
  class that the parser gave it. The text of the page is of class \<open>NavigableString\<close>
  (\<open>CData\<close> for a CDATA section); a comment is a \<open>Comment\<close>, and the strings inside
  \<open>script\<close>, \<open>style\<close> and \<open>template\<close> tags are of the classes \<open>Script\<close>,
  \<open>Stylesheet\<close> and \<open>TemplateString\<close>. The soup itself is a tag whose children are
  the top-level nodes.
\<close>

datatype string_class =
    NavigableString | CData | Comment | Declaration | Doctype | ProcessingInstruction
  | Script | Stylesheet | TemplateString | RubyTextString | RubyParenthesisString

datatype node = Text string_class string | Tag string "(string \<times> string) list" "node list"

text \<open>\<open>elem.name\<close>: the name of a tag, \<open>None\<close> for a text node.\<close>

fun node_name :: "node \<Rightarrow> string option" where
  "node_name (Text cls s) = None"
| "node_name (Tag name attrs children) = Some name"

text \<open>\<open>tag.descendants\<close>: every node below the tag, in document order (a parent before its
  children, the children from first to last).\<close>

fun descendants :: "node \<Rightarrow> node list" where
  "descendants (Text cls s) = []"
| "descendants (Tag name attrs children) = concat (map (\<lambda>c. c # descendants c) children)"

text \<open>\<open>soup.find_all(names)\<close>: the descendants that are tags with one of the names.\<close>

definition find_all :: "string list \<Rightarrow> node \<Rightarrow> node list" where
  "find_all names soup =
     filter (\<lambda>e. case node_name e of None \<Rightarrow> False | Some n \<Rightarrow> n \<in> set names) (descendants soup)"

text \<open>
  The strings that \<open>tag.text\<close> and \<open>tag.stripped_strings\<close> read, for a tag that is not
  itself a \<open>script\<close>, \<open>style\<close> or \<open>template\<close> (the extractor asks for \<open>h1\<close>, \<open>h2\<close>,
  \<open>h3\<close>, \<open>p\<close> and \<open>div\<close>): the strings below the tag whose class is exactly
  \<open>NavigableString\<close> or \<open>CData\<close>, in document order. Comments and the strings of script,
  style and template tags are left out. \<open>tag.text\<close> is the concatenation of these
  strings, \<open>tag.stripped_strings\<close> the non-empty ones among them once stripped.
\<close>

fun all_strings :: "node \<Rightarrow> string list" where
  "all_strings (Text cls s) = (if cls = NavigableString \<or> cls = CData then [s] else [])"
| "all_strings (Tag name attrs children) = concat (map all_strings children)"

definition get_text :: "node \<Rightarrow> string" where
  "get_text e = concat (all_strings e)"

definition stripped_strings :: "node \<Rightarrow> string list" where
  "stripped_strings e = filter (\<lambda>s. s \<noteq> []) (map strip (all_strings e))"

text \<open>\<open>tag.get(key, default)\<close>.\<close>

fun tag_get :: "node \<Rightarrow> string \<Rightarrow> string \<Rightarrow> string" where
  "tag_get (Text cls s) key dflt = dflt"
| "tag_get (Tag name attrs children) key dflt =
     (case map_of attrs key of None \<Rightarrow> dflt | Some v \<Rightarrow> v)"

section \<open>Page extractor\<close>

subsection \<open>Headings\<close>

record heading =
  heading_text :: string
  heading_level :: int
  heading_id :: string

text \<open>\<open>int(h.name[1])\<close> for a tag name whose second character is a decimal digit, as
  it is for the names \<open>h1\<close>, \<open>h2\<close> and \<open>h3\<close> that the loop selects.\<close>

definition name_level :: "string option \<Rightarrow> int" where
  "name_level name = (case name of Some (_ # d # _) \<Rightarrow> int (of_char d) - 48 | _ \<Rightarrow> 0)"

text \<open>The loop over \<^verbatim>\<open>soup.find_all(['h1', 'h2', 'h3'])\<close>; the second argument is
  \<open>content['headings']\<close>.\<close>

fun headings_loop :: "node list \<Rightarrow> heading list \<Rightarrow> heading list" where
  "headings_loop [] headings = headings"
| "headings_loop (h # hs) headings =
     (let text = strip (get_text h)
      in if text \<noteq> []
         then headings_loop hs
                (headings @ [\<lparr>heading_text = text, heading_level = name_level (node_name h),
                              heading_id = tag_get h ''id'' []\<rparr>])
         else headings_loop hs headings)"

text \<open>The entry of a heading tag, and the tags that are headings of level 1 to 3 with a
  text that is not empty once stripped: used to state what the loop collects.\<close>

definition heading_of :: "node \<Rightarrow> heading" where
  "heading_of h =
     \<lparr>heading_text = strip (get_text h), heading_level = name_level (node_name h),
      heading_id = tag_get h ''id'' []\<rparr>"

definition is_heading :: "node \<Rightarrow> bool" where
  "is_heading e = (node_name e = Some ''h1'' \<or> node_name e = Some ''h2'' \<or> node_name e = Some ''h3'')"

definition example_page :: node where
  "example_page = Tag ''[document]'' []
     [Tag ''h1'' [(''id'', ''top'')] [Text NavigableString '' Welcome ''],
      Tag ''div'' []
        [Tag ''h2'' [] [Text NavigableString ''Plans'', Text Comment ''draft''],
         Tag ''h4'' [] [Text NavigableString ''Small print''],
         Tag ''h2'' [] [Text NavigableString ''  ''],
         Tag ''h2'' [] [Tag ''script'' [] [Text Script ''var x = 1;'']]],
      Tag ''h5'' [] [Text NavigableString ''Footer''],
      Tag ''h3'' [] [Tag ''span'' [] [Text NavigableString ''Contact'']]]"

definition extract_headings :: "node \<Rightarrow> heading list" where
  "extract_headings soup = headings_loop (find_all [''h1'', ''h2'', ''h3''] soup) []"

subsection \<open>Sectioned text\<close>

text \<open>
  \<open>content['main_text']\<close> is a dictionary from section titles to lists of paragraphs. It
  is modelled as an association list in insertion order, which is the order Python keeps.
  \<open>dict_set\<close> is \<open>d[k] = v\<close>: the value of an existing key is replaced in place, a new key
  goes to the end. \<open>dict_get\<close> is \<open>d[k]\<close>, which raises \<open>KeyError\<close> for a missing key.
\<close>

type_synonym main_text = "(string \<times> string list) list"

definition dict_has :: "('k \<times> 'v) list \<Rightarrow> 'k \<Rightarrow> bool" where
  "dict_has d k = (k \<in> set (map fst d))"

fun dict_set :: "('k \<times> 'v) list \<Rightarrow> 'k \<Rightarrow> 'v \<Rightarrow> ('k \<times> 'v) list" where
  "dict_set [] k v = [(k, v)]"
| "dict_set ((k', v') # d) k v = (if k' = k then (k, v) # d else (k', v') # dict_set d k v)"

definition dict_get :: "('k \<times> 'v) list \<Rightarrow> 'k \<Rightarrow> py_error + 'v" where
  "dict_get d k = (case map_of d k of None \<Rightarrow> Inl KeyError | Some v \<Rightarrow> Inr v)"

text \<open>The loop over \<^verbatim>\<open>soup.find_all(['h1', 'h2', 'h3', 'p', 'div'])\<close>; the state is
  \<open>current_section\<close> and \<open>content['main_text']\<close>. An empty text is skipped before the
  dictionary is read.\<close>

fun main_text_loop ::
  "node list \<Rightarrow> string \<times> main_text \<Rightarrow> py_error + (string \<times> main_text)" where
  "main_text_loop [] (current_section, main_text) = Inr (current_section, main_text)"
| "main_text_loop (elem # rest) (current_section, main_text) =
     (if node_name elem \<in> Some ` set [''h1'', ''h2'', ''h3''] then
        (let current_section = strip (get_text elem)
         in if \<not> dict_has main_text current_section
            then main_text_loop rest (current_section, dict_set main_text current_section [])
            else main_text_loop rest (current_section, main_text))
      else if node_name elem \<in> Some ` set [''p'', ''div''] then
        (let text = join '' '' (stripped_strings elem)
         in if text = [] then main_text_loop rest (current_section, main_text)
            else
              (case dict_get main_text current_section of
                 Inl e \<Rightarrow> Inl e
               | Inr paragraphs \<Rightarrow>
                   if \<not> list_ex (\<lambda>existing. str_in text existing) paragraphs
                   then main_text_loop rest
                          (current_section,
                           dict_set main_text current_section (paragraphs @ [text]))
                   else main_text_loop rest (current_section, main_text)))
      else main_text_loop rest (current_section, main_text))"

definition extract_main_text :: "node \<Rightarrow> py_error + main_text" where
  "extract_main_text soup =
     (case main_text_loop (find_all [''h1'', ''h2'', ''h3'', ''p'', ''div''] soup)
             (''Main Content'', dict_set [] ''Main Content'' []) of
        Inl e \<Rightarrow> Inl e
      | Inr (current_section, main_text) \<Rightarrow> Inr main_text)"

definition sections_page :: node where
  "sections_page = Tag ''[document]'' []
     [Tag ''p'' [] [Text NavigableString ''intro''],
      Tag ''h2'' [] [Text NavigableString ''Plans''],
      Tag ''p'' [] [Text NavigableString ''basic'', Tag ''style'' [] [Text Stylesheet ''p {}'']],
      Tag ''h1'' [] [Text NavigableString '' Main Content ''],
      Tag ''p'' [] [Text NavigableString ''more'', Text Comment ''todo''],
      Tag ''h2'' [] [Text NavigableString ''Plans ''],
      Tag ''p'' [] [Text NavigableString ''pro'']]"

text \<open>A list of paragraphs as the loop builds it: no entry is empty and no entry is a
  substring of an entry that came before it. \<open>deduped_rev\<close> reads the list from its last
  entry.\<close>

fun deduped_rev :: "string list \<Rightarrow> bool" where
  "deduped_rev [] = True"
| "deduped_rev (x # earlier) =
     (x \<noteq> [] \<and> \<not> list_ex (\<lambda>existing. str_in x existing) earlier \<and> deduped_rev earlier)"

definition deduped :: "string list \<Rightarrow> bool" where
  "deduped paragraphs = deduped_rev (rev paragraphs)"

text \<open>The state of the loop is well formed: the current section and \<open>Main Content\<close> are
  keys, no key occurs twice, and every list of paragraphs is deduplicated.\<close>

definition main_text_inv :: "string \<times> main_text \<Rightarrow> bool" where
  "main_text_inv st =
     (dict_has (snd st) (fst st) \<and> dict_has (snd st) ''Main Content'' \<and>
      distinct (map fst (snd st)) \<and> list_all (\<lambda>(k, ps). deduped ps) (snd st))"

text \<open>The loop only adds: every list of paragraphs of the first dictionary is the
  beginning of the list under the same key in the second.\<close>

definition main_text_grows :: "main_text \<Rightarrow> main_text \<Rightarrow> bool" where
  "main_text_grows d d' =
     (\<forall>k ps. map_of d k = Some ps \<longrightarrow> (\<exists>more. map_of d' k = Some (ps @ more)))"

section \<open>Element locator\<close>

text \<open>
  The browser is outside the program. \<open>WebDriverWait(driver, 2).until(
  EC.element_to_be_clickable((by, query)))\<close> is a parameter \<open>wait\<close>: it gives the element,
  or \<open>None\<close> when the wait raises (a timeout or any other exception; each attempt is inside
  a bare \<open>except\<close>).
\<close>

datatype selenium_by = LINK_TEXT | PARTIAL_LINK_TEXT | XPATH

definition apostrophe :: string where
  "apostrophe = [CHR 0x27]"

definition text_xpath :: "string \<Rightarrow> string" where
  "text_xpath target_text =
     ''//*[translate(text(), '' @ apostrophe @ ''ABCDEFGHIJKLMNOPQRSTUVWXYZ'' @ apostrophe @
     '', '' @ apostrophe @ ''abcdefghijklmnopqrstuvwxyz'' @ apostrophe @ '')='' @
     apostrophe @ lower target_text @ apostrophe @
     '' or contains(translate(text(), '' @ apostrophe @ ''ABCDEFGHIJKLMNOPQRSTUVWXYZ'' @
     apostrophe @ '', '' @ apostrophe @ ''abcdefghijklmnopqrstuvwxyz'' @ apostrophe @
     ''), '' @ apostrophe @ lower target_text @ apostrophe @ '')]''"

definition attribute_xpath :: "string \<Rightarrow> string" where
  "attribute_xpath target_text =
     ''//*[@aria-label='' @ apostrophe @ target_text @ apostrophe @
     '' or @title='' @ apostrophe @ target_text @ apostrophe @
     '' or @alt='' @ apostrophe @ target_text @ apostrophe @ '']''"

text \<open>\<open>find_and_click_element\<close>: the result, and the waits that were made, in order.\<close>

definition find_and_click_element ::
  "(selenium_by \<Rightarrow> string \<Rightarrow> 'e option) \<Rightarrow> string \<Rightarrow> 'e option \<times> (selenium_by \<times> string) list" where
  "find_and_click_element wait target_text =
     (case wait LINK_TEXT target_text of
        Some element \<Rightarrow> (Some element, [(LINK_TEXT, target_text)])
      | None \<Rightarrow>
     (case wait PARTIAL_LINK_TEXT target_text of
        Some element \<Rightarrow>
          (Some element, [(LINK_TEXT, target_text), (PARTIAL_LINK_TEXT, target_text)])
      | None \<Rightarrow>
     (case wait XPATH (text_xpath target_text) of
        Some element \<Rightarrow>
          (Some element,
           [(LINK_TEXT, target_text), (PARTIAL_LINK_TEXT, target_text),
            (XPATH, text_xpath target_text)])
      | None \<Rightarrow>
     (case wait XPATH (attribute_xpath target_text) of
        Some element \<Rightarrow>
          (Some element,
           [(LINK_TEXT, target_text), (PARTIAL_LINK_TEXT, target_text),
            (XPATH, text_xpath target_text), (XPATH, attribute_xpath target_text)])
      | None \<Rightarrow>
          (None,
           [(LINK_TEXT, target_text), (PARTIAL_LINK_TEXT, target_text),
            (XPATH, text_xpath target_text), (XPATH, attribute_xpath target_text)])))))"

text \<open>The four stages of the cascade, as queries to the browser.\<close>

definition locator_stages :: "string \<Rightarrow> (selenium_by \<times> string) list" where
  "locator_stages target_text =
     [(LINK_TEXT, target_text), (PARTIAL_LINK_TEXT, target_text),
      (XPATH, text_xpath target_text), (XPATH, attribute_xpath target_text)]"

subsection \<open>The browser's side of a wait\<close>

text \<open>
  What a wait finds is decided by Selenium and the browser. It is modelled for a page
  that does not change while the locator runs. The page is the browser's tree of the
  document; an element is a tag of it, with its position in document order. What the
  tree does not determine is given with the page: the text of an element as it is
  rendered (trimmed), whether an element is displayed and enabled, and what the XPath
  engine returns for an expression that is not one of the two that the locator builds
  (\<open>None\<close> when it raises or selects nothing).
\<close>

record browser_page =
  page_dom :: node
  rendered_text :: "nat \<Rightarrow> string"
  is_clickable :: "nat \<Rightarrow> bool"
  other_xpath :: "string \<Rightarrow> (nat \<times> node) option"

definition page_elements :: "browser_page \<Rightarrow> (nat \<times> node) list" where
  "page_elements pg =
     filter (\<lambda>(i, e). node_name e \<noteq> None)
       (zip [0 ..< length (descendants (page_dom pg))] (descendants (page_dom pg)))"

text \<open>XPath's \<open>text()\<close> in a string context: the first text node among the children of
  the element (in the browser the content of a script or style element is a text node
  too, a comment is not), the empty string when there is none. And XPath's
  \<open>translate(s, 'ABCDEFGHIJKLMNOPQRSTUVWXYZ', 'abcdefghijklmnopqrstuvwxyz')\<close>.\<close>

fun is_text_node :: "node \<Rightarrow> bool" where
  "is_text_node (Text cls s) =
     (cls \<noteq> Comment \<and> cls \<noteq> Declaration \<and> cls \<noteq> Doctype \<and> cls \<noteq> ProcessingInstruction)"
| "is_text_node (Tag name attrs children) = False"

fun first_text :: "node \<Rightarrow> string" where
  "first_text (Text cls s) = []"
| "first_text (Tag name attrs children) =
     (case find is_text_node children of Some (Text cls s) \<Rightarrow> s | _ \<Rightarrow> [])"

definition translate_upper :: "string \<Rightarrow> string" where
  "translate_upper s =
     map (\<lambda>c. if 65 \<le> (of_char c :: nat) \<and> (of_char c :: nat) \<le> 90
              then char_of ((of_char c :: nat) + 32) else c) s"

fun attribute :: "node \<Rightarrow> string \<Rightarrow> string option" where
  "attribute (Text cls s) key = None"
| "attribute (Tag name attrs children) key = map_of attrs key"

text \<open>
  Reading the two expressions back. A string literal of XPath in single quotes runs to
  the next apostrophe. \<open>parse_text_xpath\<close> accepts exactly the strings
  \<^verbatim>\<open>//*[translate(text(), 'A..Z', 'a..z')='L1' or contains(translate(text(), 'A..Z', 'a..z'), 'L2')]\<close>
  and \<open>parse_attribute_xpath\<close> exactly the strings
  \<^verbatim>\<open>//*[@aria-label='L1' or @title='L2' or @alt='L3']\<close>, and they return the literals.
\<close>

fun strip_prefix :: "string \<Rightarrow> string \<Rightarrow> string option" where
  "strip_prefix [] s = Some s"
| "strip_prefix (p # ps) [] = None"
| "strip_prefix (p # ps) (c # cs) = (if p = c then strip_prefix ps cs else None)"

fun take_literal :: "string \<Rightarrow> (string \<times> string) option" where
  "take_literal [] = None"
| "take_literal (c # cs) =
     (if c = CHR 0x27 then Some ([], cs)
      else case take_literal cs of None \<Rightarrow> None | Some (l, r) \<Rightarrow> Some (c # l, r))"

definition parse_text_xpath :: "string \<Rightarrow> (string \<times> string) option" where
  "parse_text_xpath q =
     (case strip_prefix
             (''//*[translate(text(), '' @ apostrophe @ ''ABCDEFGHIJKLMNOPQRSTUVWXYZ'' @
              apostrophe @ '', '' @ apostrophe @ ''abcdefghijklmnopqrstuvwxyz'' @ apostrophe @
              '')='' @ apostrophe) q of
        None \<Rightarrow> None
      | Some r1 \<Rightarrow>
     (case take_literal r1 of
        None \<Rightarrow> None
      | Some (l1, r2) \<Rightarrow>
     (case strip_prefix
             ('' or contains(translate(text(), '' @ apostrophe @
              ''ABCDEFGHIJKLMNOPQRSTUVWXYZ'' @ apostrophe @ '', '' @ apostrophe @
              ''abcdefghijklmnopqrstuvwxyz'' @ apostrophe @ ''), '' @ apostrophe) r2 of
        None \<Rightarrow> None
      | Some r3 \<Rightarrow>
     (case take_literal r3 of
        None \<Rightarrow> None
      | Some (l2, r4) \<Rightarrow> if r4 = '')]'' then Some (l1, l2) else None))))"

definition parse_attribute_xpath :: "string \<Rightarrow> (string \<times> string \<times> string) option" where
  "parse_attribute_xpath q =
     (case strip_prefix (''//*[@aria-label='' @ apostrophe) q of
        None \<Rightarrow> None
      | Some r1 \<Rightarrow>
     (case take_literal r1 of
        None \<Rightarrow> None
      | Some (l1, r2) \<Rightarrow>
     (case strip_prefix ('' or @title='' @ apostrophe) r2 of
        None \<Rightarrow> None
      | Some r3 \<Rightarrow>
     (case take_literal r3 of
        None \<Rightarrow> None
      | Some (l2, r4) \<Rightarrow>
     (case strip_prefix ('' or @alt='' @ apostrophe) r4 of
        None \<Rightarrow> None
      | Some r5 \<Rightarrow>
     (case take_literal r5 of
        None \<Rightarrow> None
      | Some (l3, r6) \<Rightarrow> if r6 = '']'' then Some (l1, l2, l3) else None))))))"

text \<open>
  \<open>driver.find_element(by, query)\<close>: the first element in document order that the
  locator selects. The link-text locators select the \<open>a\<close> elements whose rendered text is
  the query, or contains it. \<open>//*[...]\<close> selects the elements of any name for which the
  predicate holds: an attribute is compared when the element has it.
\<close>

definition find_element ::
  "browser_page \<Rightarrow> selenium_by \<Rightarrow> string \<Rightarrow> (nat \<times> node) option" where
  "find_element pg how query =
     (case how of
        LINK_TEXT \<Rightarrow>
          find (\<lambda>(i, e). node_name e = Some ''a'' \<and> rendered_text pg i = query)
            (page_elements pg)
      | PARTIAL_LINK_TEXT \<Rightarrow>
          find (\<lambda>(i, e). node_name e = Some ''a'' \<and> str_in query (rendered_text pg i))
            (page_elements pg)
      | XPATH \<Rightarrow>
          (case parse_text_xpath query of
             Some (l1, l2) \<Rightarrow>
               find (\<lambda>(i, e). translate_upper (first_text e) = l1 \<or>
                               str_in l2 (translate_upper (first_text e)))
                 (page_elements pg)
           | None \<Rightarrow>
          (case parse_attribute_xpath query of
             Some (l1, l2, l3) \<Rightarrow>
               find (\<lambda>(i, e). attribute e ''aria-label'' = Some l1 \<or>
                               attribute e ''title'' = Some l2 \<or>
                               attribute e ''alt'' = Some l3)
                 (page_elements pg)
           | None \<Rightarrow> other_xpath pg query)))"

text \<open>\<open>WebDriverWait(driver, 2).until(EC.element_to_be_clickable((by, query)))\<close> on
  such a page: the element that \<open>find_element\<close> gives, if it is displayed and enabled.
  Otherwise the wait ends in an exception, which the locator catches: \<open>None\<close>.\<close>

definition until_clickable ::
  "browser_page \<Rightarrow> selenium_by \<Rightarrow> string \<Rightarrow> (nat \<times> node) option" where
  "until_clickable pg how query =
     (case find_element pg how query of
        None \<Rightarrow> None
      | Some (i, e) \<Rightarrow> if is_clickable pg i then Some (i, e) else None)"

text \<open>The first element in document order with a property, if it is displayed and
  enabled: used to state what a wait finds.\<close>

definition clickable_first ::
  "browser_page \<Rightarrow> (nat \<times> node \<Rightarrow> bool) \<Rightarrow> (nat \<times> node) option" where
  "clickable_first pg P =
     (case find P (page_elements pg) of
        None \<Rightarrow> None
      | Some (i, e) \<Rightarrow> if is_clickable pg i then Some (i, e) else None)"

text \<open>A page whose only element has the label \<open>Menu\<close> and is hidden, and the same page
  with the element shown.\<close>

definition hidden_menu_page :: browser_page where
  "hidden_menu_page =
     \<lparr>page_dom = Tag ''[document]'' [] [Tag ''div'' [(''aria-label'', ''Menu'')] []],
      rendered_text = (\<lambda>i. []), is_clickable = (\<lambda>i. False), other_xpath = (\<lambda>q. None)\<rparr>"

definition menu_page :: browser_page where
  "menu_page =
     \<lparr>page_dom = Tag ''[document]'' []
        [Tag ''p'' [] [Text NavigableString ''Welcome''],
         Tag ''div'' [(''aria-label'', ''Menu'')] []],
      rendered_text = (\<lambda>i. if i = 0 then ''Welcome'' else []),
      is_clickable = (\<lambda>i. True), other_xpath = (\<lambda>q. None)\<rparr>"

section \<open>Navigation session\<close>

text \<open>
  The fields of \<open>AccessibilityAgent\<close> that its methods change. \<open>driver\<close> is the state of
  the browser, \<open>status_message\<close> the text of the status message that is shown (the
  pictographs that the source puts before its messages are left out). The page content is
  of any type \<open>'p\<close>.
\<close>

record ('d, 'p) session =
  driver :: 'd
  current_url :: "string option"
  current_page_content :: "'p option"
  conversation_history :: "string list"
  status_message :: "string option"
  navigation_history :: "string option list"
  current_section :: "string option"

text \<open>
  What the session calls outside itself: the Selenium driver (\<open>driver.get\<close>,
  \<open>driver.back\<close>, \<open>element.click\<close>, each returning the new state of the browser and the
  text of the exception if it raised; \<open>driver.current_url\<close>; the waits of the locator),
  \<open>extract_page_content\<close> on the page that the browser shows, with \<open>self.current_url\<close>
  (\<open>Inl\<close> the text of an exception), and \<open>get_compact_page_description\<close>.
\<close>

record ('d, 'e, 'p) browser =
  drv_get :: "'d \<Rightarrow> string \<Rightarrow> 'd \<times> string option"
  drv_back :: "'d \<Rightarrow> 'd \<times> string option"
  drv_click :: "'d \<Rightarrow> 'e \<Rightarrow> 'd \<times> string option"
  drv_current_url :: "'d \<Rightarrow> string"
  drv_wait :: "'d \<Rightarrow> selenium_by \<Rightarrow> string \<Rightarrow> 'e option"
  extract_page_content :: "'d \<Rightarrow> string option \<Rightarrow> string + 'p"
  get_compact_page_description :: "'p \<Rightarrow> string"

definition set_status :: "string \<Rightarrow> ('d, 'p) session \<Rightarrow> ('d, 'p) session" where
  "set_status message s = s\<lparr>status_message := Some message\<rparr>"

definition clear_status :: "('d, 'p) session \<Rightarrow> ('d, 'p) session" where
  "clear_status s = s\<lparr>status_message := None\<rparr>"

text \<open>The first statement of \<open>navigate_to_url\<close>: an address without \<open>http://\<close> or
  \<open>https://\<close> at its start gets \<open>https://\<close>.\<close>

definition with_scheme :: "string \<Rightarrow> string" where
  "with_scheme url =
     (if \<not> (startswith url ''http://'' \<or> startswith url ''https://'')
      then ''https://'' @ url else url)"

text \<open>\<open>navigate_to_url\<close> returns the page content, or the text of an error.\<close>

definition navigate_to_url ::
  "('d, 'e, 'p) browser \<Rightarrow> string \<Rightarrow> ('d, 'p) session \<Rightarrow> (string + 'p) \<times> ('d, 'p) session" where
  "navigate_to_url b url0 s =
     (let url = with_scheme url0;
          s1 = set_status (''Loading '' @ url @ ''...'') s
      in case drv_get b (driver s1) url of
           (d, Some err) \<Rightarrow>
             (Inl (''Error navigating to URL: '' @ err), clear_status (s1\<lparr>driver := d\<rparr>))
         | (d, None) \<Rightarrow>
             (let s2 = s1\<lparr>driver := d, current_url := Some url\<rparr>;
                  s3 = set_status ''Analyzing page content...'' s2
              in case extract_page_content b (driver s3) (current_url s3) of
                   Inl err \<Rightarrow> (Inl (''Error navigating to URL: '' @ err), clear_status s3)
                 | Inr page \<Rightarrow>
                     (Inr page, clear_status (s3\<lparr>current_page_content := Some page\<rparr>))))"

text \<open>
  \<open>process_user_input\<close> on an input that holds no address and is not a request for a
  summary, when the intent that the language model returns is \<open>click_link\<close> with a target
  (\<open>click_link\<close> below) or \<open>go_back\<close> (\<open>go_back\<close> below). The function first tests that a
  page is loaded and answers with the prompt to share an address if none is; then comes
  the branch of the intent (the branch \<open>click_link\<close> tests for a page again), with the
  \<open>except\<close> clause of the function around it. Both return the reply and the session.
\<close>

definition share_url_reply :: string where
  "share_url_reply =
     ''Share any website URL with me, and I'' @ apostrophe @ ''ll help you explore it!''"

definition error_reply :: "string \<Rightarrow> string" where
  "error_reply err =
     ''Error: '' @ err @ [CHR 0x0A] @ ''What would you like to know about the current page?''"

definition no_page_reply :: string where
  "no_page_reply = ''No page is currently loaded. Please share a URL to explore.''"

definition not_found_reply :: "string \<Rightarrow> string" where
  "not_found_reply target =
     ''I couldn'' @ apostrophe @ ''t find a link matching '' @ apostrophe @ target @ apostrophe @
     ''. Could you try describing what you'' @ apostrophe @ ''re looking for differently?''"

definition first_page_reply :: string where
  "first_page_reply =
     ''This is the first page we'' @ apostrophe @
     ''ve visited. What would you like to explore here?''"

definition click_link ::
  "('d, 'e, 'p) browser \<Rightarrow> string \<Rightarrow> ('d, 'p) session \<Rightarrow> string \<times> ('d, 'p) session" where
  "click_link b target s =
     (if current_page_content s = None then (share_url_reply, s)
      else if current_page_content s = None then (no_page_reply, s)
      else
        case fst (find_and_click_element (drv_wait b (driver s)) target) of
          None \<Rightarrow> (not_found_reply target, s)
        | Some element \<Rightarrow>
            (let s1 = set_status (''Navigating to '' @ apostrophe @ target @ apostrophe @ ''...'') s
             in case drv_click b (driver s1) element of
                  (d, Some err) \<Rightarrow> (error_reply err, clear_status (s1\<lparr>driver := d\<rparr>))
                | (d, None) \<Rightarrow>
                    (let s2 = s1\<lparr>driver := d,
                                 navigation_history := navigation_history s1 @ [current_url s1]\<rparr>
                     in case extract_page_content b (driver s2) (current_url s2) of
                          Inl err \<Rightarrow> (error_reply err, clear_status s2)
                        | Inr page \<Rightarrow>
                            (get_compact_page_description b page,
                             s2\<lparr>current_page_content := Some page,
                                current_url := Some (drv_current_url b (driver s2))\<rparr>))))"

definition go_back ::
  "('d, 'e, 'p) browser \<Rightarrow> ('d, 'p) session \<Rightarrow> string \<times> ('d, 'p) session" where
  "go_back b s =
     (if current_page_content s = None then (share_url_reply, s)
      else if navigation_history s = [] then (first_page_reply, s)
      else
        (let s1 = set_status ''Going back to previous page...'' s
         in case drv_back b (driver s1) of
              (d, Some err) \<Rightarrow> (error_reply err, clear_status (s1\<lparr>driver := d\<rparr>))
            | (d, None) \<Rightarrow>
                (let s2 = s1\<lparr>driver := d,
                             current_url := last (navigation_history s1),
                             navigation_history := butlast (navigation_history s1)\<rparr>
                 in case extract_page_content b (driver s2) (current_url s2) of
                      Inl err \<Rightarrow> (error_reply err, clear_status s2)
                    | Inr page \<Rightarrow>
                        (get_compact_page_description b page,
                         s2\<lparr>current_page_content := Some page\<rparr>))))"

text \<open>A browser of two pages, for the examples: its state is the address it shows, an
  element is the address its link leads to, and the content of a page is its address.\<close>

definition example_browser :: "(string, string, string) browser" where
  "example_browser =
     \<lparr>drv_get = (\<lambda>d url. (url, None)),
      drv_back = (\<lambda>d. (''https://shop.example'', None)),
      drv_click = (\<lambda>d element. (element, None)),
      drv_current_url = (\<lambda>d. d),
      drv_wait = (\<lambda>d how query.
         if how = XPATH \<and> query = attribute_xpath ''Pricing''
         then Some ''https://shop.example/pricing'' else None),
      extract_page_content = (\<lambda>d url. Inr d),
      get_compact_page_description = (\<lambda>page. page)\<rparr>"

definition fresh_session :: "(string, string) session" where
  "fresh_session =
     \<lparr>driver = ''about:blank'', current_url = None, current_page_content = None,
      conversation_history = [], status_message = None, navigation_history = [],
      current_section = None\<rparr>"

definition loaded_session :: "(string, string) session" where
  "loaded_session =
     fresh_session\<lparr>driver := ''https://shop.example'',
                    current_url := Some ''https://shop.example'',
                    current_page_content := Some ''https://shop.example''\<rparr>"

section \<open>Properties of the string functions\<close>

lemma of_char_lt_256: "(of_char c :: nat) < 256"
  by (cases c) simp

lemma lower_char_not_upper: "\<not> isupper (lower_char c)"
proof (cases "isupper c")
  case True
  define n where "n = (of_char c :: nat)"
  from True have n: "(65 \<le> n \<and> n \<le> 90) \<or> (192 \<le> n \<and> n \<le> 222 \<and> n \<noteq> 215)"
    by (simp add: isupper_def n_def Let_def)
  then have "(n + 32) mod 256 = n + 32" by auto
  then have "(of_char (char_of (n + 32)) :: nat) = n + 32" by simp
  with n True show ?thesis
    by (auto simp add: lower_char_def isupper_def [of "char_of _"] n_def [symmetric] Let_def)
next
  case False
  then show ?thesis by (simp add: lower_char_def)
qed

lemma lower_char_idem: "lower_char (lower_char c) = lower_char c"
  using lower_char_not_upper [of c] by (simp add: lower_char_def [of "lower_char c"])

lemma lower_char_space: "lower_char (CHR '' '') = CHR '' ''"
  by (simp add: lower_char_def isupper_def)

lemma isspace_space: "isspace (CHR '' '')"
  by (simp add: isspace_def)

lemma split_acc_chars: "set (concat (split_acc w s)) \<subseteq> set w \<union> set s"
  by (induction w s rule: split_acc.induct) auto

lemma split_acc_words:
  "\<forall>c\<in>set w. \<not> isspace c \<Longrightarrow> v \<in> set (split_acc w s) \<Longrightarrow> v \<noteq> [] \<and> (\<forall>c\<in>set v. \<not> isspace c)"
proof (induction s arbitrary: w)
  case Nil
  then show ?case by (simp split: if_splits)
next
  case (Cons c cs)
  show ?case
  proof (cases "isspace c")
    case True
    have e: "\<forall>c\<in>set ([]::string). \<not> isspace c" by simp
    from Cons.prems True have "v = w \<and> w \<noteq> [] \<or> v \<in> set (split_acc [] cs)"
      by (simp split: if_splits)
    then show ?thesis using Cons.IH [OF e] Cons.prems(1) by blast
  next
    case False
    with Cons.prems have "\<forall>d\<in>set (w @ [c]). \<not> isspace d" and "v \<in> set (split_acc (w @ [c]) cs)"
      by simp_all
    then show ?thesis by (rule Cons.IH)
  qed
qed

lemma split_acc_word: "\<forall>c\<in>set w. \<not> isspace c \<Longrightarrow> split_acc a (w @ r) = split_acc (a @ w) r"
  by (induction w arbitrary: a) simp_all

lemma word_list_split: "word_list (split s)"
  unfolding word_list_def split_def using split_acc_words [of "[]" _ s] by auto

lemma split_join: "word_list ws \<Longrightarrow> split (join '' '' ws) = ws"
proof (induction "'' ''" ws rule: join.induct)
  case 1
  show ?case by (simp add: split_def)
next
  case (2 w)
  then have "split_acc [] (w @ []) = split_acc ([] @ w) []"
    by (intro split_acc_word) (simp add: word_list_def)
  with 2 show ?case by (simp add: split_def word_list_def)
next
  case (3 w v ws)
  from 3(2) have w: "w \<noteq> []" "\<forall>c\<in>set w. \<not> isspace c" and r: "word_list (v # ws)"
    by (simp_all add: word_list_def)
  have "split_acc [] (w @ '' '' @ join '' '' (v # ws)) = split_acc ([] @ w) ('' '' @ join '' '' (v # ws))"
    by (rule split_acc_word [OF w(2)])
  also have "\<dots> = w # split_acc [] (join '' '' (v # ws))"
    using w(1) by (simp add: isspace_space)
  finally show ?case using 3(1) [OF r] by (simp add: split_def)
qed

lemma join_chars: "set (join sep ws) \<subseteq> set sep \<union> set (concat ws)"
  by (induction sep ws rule: join.induct) auto

lemma normalize_text_chars:
  assumes "c \<in> set (normalize_text x)"
  shows "c = CHR '' '' \<or> (\<not> isspace c \<and> (\<exists>d. c = lower_char d))"
proof -
  from assms join_chars [of "'' ''" "split (lower x)"]
  have "c = CHR '' '' \<or> c \<in> set (concat (split (lower x)))"
    by (auto simp: normalize_text_def)
  moreover have "\<not> isspace c" if "c \<in> set (concat (split (lower x)))"
    using that word_list_split [of "lower x"] by (auto simp: word_list_def)
  moreover have "\<exists>d. c = lower_char d" if "c \<in> set (concat (split (lower x)))"
    using that split_acc_chars [of "[]" "lower x"] by (auto simp: split_def lower_def)
  ultimately show ?thesis by blast
qed

lemma lower_normalize_text: "lower (normalize_text x) = normalize_text x"
proof -
  have "lower_char c = c" if "c \<in> set (normalize_text x)" for c
    using normalize_text_chars [OF that] by (auto simp: lower_char_idem lower_char_space)
  then show ?thesis unfolding lower_def by (simp add: map_idI)
qed

lemma split_normalize_text: "split (normalize_text x) = split (lower x)"
  by (simp add: normalize_text_def split_join word_list_split)

lemma normalize_text_twice: "normalize_text (normalize_text x) = normalize_text x"
proof -
  have "normalize_text (normalize_text x) = join '' '' (split (lower (normalize_text x)))"
    by (simp only: normalize_text_def)
  also have "\<dots> = join '' '' (split (lower x))"
    by (simp only: lower_normalize_text split_normalize_text)
  finally show ?thesis by (simp only: normalize_text_def)
qed

lemma join_ends:
  "word_list ws \<Longrightarrow> ws \<noteq> [] \<Longrightarrow>
     join '' '' ws \<noteq> [] \<and> \<not> isspace (hd (join '' '' ws)) \<and> \<not> isspace (last (join '' '' ws))"
proof (induction "'' ''" ws rule: join.induct)
  case 1
  then show ?case by simp
next
  case (2 w)
  then have "w \<noteq> []" and "\<forall>c\<in>set w. \<not> isspace c" by (simp_all add: word_list_def)
  then have "hd w \<in> set w" and "last w \<in> set w" by simp_all
  with \<open>w \<noteq> []\<close> \<open>\<forall>c\<in>set w. \<not> isspace c\<close> show ?case by simp
next
  case (3 w v ws)
  then have r: "word_list (v # ws)" and w: "w \<noteq> []" "\<forall>c\<in>set w. \<not> isspace c"
    by (simp_all add: word_list_def)
  from w have "hd w \<in> set w" by simp
  with w have "\<not> isspace (hd w)" by blast
  from 3(1) [OF r] have "join '' '' (v # ws) \<noteq> []" "\<not> isspace (last (join '' '' (v # ws)))"
    by simp_all
  with w \<open>\<not> isspace (hd w)\<close> show ?case by simp
qed

lemma strip_ends: "s = [] \<or> \<not> isspace (hd s) \<and> \<not> isspace (last s) \<Longrightarrow> strip s = s"
proof (cases s)
  case Nil
  then show ?thesis by (simp add: strip_def)
next
  case (Cons c cs)
  assume "s = [] \<or> \<not> isspace (hd s) \<and> \<not> isspace (last s)"
  with Cons have h: "\<not> isspace c" and l: "\<not> isspace (last s)" by simp_all
  from h Cons have "dropWhile isspace s = s" by simp
  moreover from Cons l have "dropWhile isspace (rev s) = rev s"
    by (cases "rev s") (simp, metis dropWhile.simps(2) hd_rev list.sel(1))
  ultimately show ?thesis by (simp add: strip_def)
qed

lemma str_in_two_spaces_word:
  "\<forall>c\<in>set w. \<not> isspace c \<Longrightarrow> str_in ''  '' (w @ r) = str_in ''  '' r"
  by (induction w) (auto simp: isspace_space)

lemma join_no_run: "word_list ws \<Longrightarrow> \<not> str_in ''  '' (join '' '' ws)"
proof (induction "'' ''" ws rule: join.induct)
  case 1
  show ?case by simp
next
  case (2 w)
  then have "\<forall>c\<in>set w. \<not> isspace c" by (simp add: word_list_def)
  from str_in_two_spaces_word [OF this, of "[]"] show ?case by simp
next
  case (3 w v ws)
  then have w: "\<forall>c\<in>set w. \<not> isspace c" and r: "word_list (v # ws)"
    by (simp_all add: word_list_def)
  from join_ends [OF r] obtain c cs where j: "join '' '' (v # ws) = c # cs" and c: "\<not> isspace c"
    by (cases "join '' '' (v # ws)") auto
  from c have "c \<noteq> CHR '' ''" using isspace_space by auto
  with 3(1) [OF r] j have "\<not> str_in ''  '' ('' '' @ join '' '' (v # ws))" by simp
  with str_in_two_spaces_word [OF w, of "'' '' @ join '' '' (v # ws)"] show ?case by simp
qed

text \<open>
  Claim C9. \<open>normalize_text\<close> is a function of its argument alone. Its result has the
  words of the lowercased input, in order; it has no upper-case character, its only
  whitespace characters are single spaces between two words (no run of two, none at either
  end), and normalizing it again changes nothing. The strings \<open>"  Pricing   PLAN "\<close> and
  \<open>"pricing plan"\<close> have the same normal form.
\<close>

theorem normalize_text_idempotent:
  "normalize_text (normalize_text x) = normalize_text x \<and>
   normalize_text ''  Pricing   PLAN '' = normalize_text ''pricing plan'' \<and>
   split (normalize_text x) = split (lower x) \<and>
   strip (normalize_text x) = normalize_text x \<and>
   \<not> str_in ''  '' (normalize_text x) \<and>
   (\<forall>c\<in>set (normalize_text x). \<not> isupper c \<and> (isspace c \<longrightarrow> c = CHR '' ''))"
proof -
  have ex: "normalize_text ''  Pricing   PLAN '' = normalize_text ''pricing plan''"
    by code_simp
  have w: "word_list (split (lower x))" by (rule word_list_split)
  have st: "strip (normalize_text x) = normalize_text x"
  proof (cases "split (lower x) = []")
    case True
    then show ?thesis by (simp add: normalize_text_def strip_def)
  next
    case False
    from join_ends [OF w False] show ?thesis
      unfolding normalize_text_def by (intro strip_ends) simp
  qed
  have run: "\<not> str_in ''  '' (normalize_text x)"
    unfolding normalize_text_def by (rule join_no_run [OF w])
  have ch: "\<not> isupper c \<and> (isspace c \<longrightarrow> c = CHR '' '')" if "c \<in> set (normalize_text x)" for c
    using normalize_text_chars [OF that] lower_char_not_upper
    by (auto simp: isupper_def)
  from ex st run ch show ?thesis
    by (simp add: normalize_text_twice split_normalize_text)
qed

theorem normalize_text_idempotent_witness:
  "CHR ''p'' \<in> set (normalize_text ''  Pricing   PLAN '') \<and> \<not> isupper (CHR ''p'') \<and>
   CHR '' '' \<in> set (normalize_text ''  Pricing   PLAN '') \<and> isspace (CHR '' '') \<and>
   normalize_text (normalize_text ''  Pricing   PLAN '') = ''pricing plan''"
proof -
  have n: "normalize_text ''  Pricing   PLAN '' = ''pricing plan''"
    by code_simp
  have s: "isspace (CHR '' '')" by (rule isspace_space)
  from normalize_text_idempotent [of "''  Pricing   PLAN ''"] n s show ?thesis
    by simp
qed

section \<open>The command classifier\<close>

text \<open>
  Claim C1. The classifier on the four examples of the specification: \<open>"go back"\<close> is
  \<open>Back\<close>, \<open>"show me the pricing section"\<close> is the section \<open>"pricing"\<close>, \<open>"asdkjfh"\<close> is
  \<open>Unknown\<close> with the text as it was typed. For \<open>"click sign up"\<close> the lazy group of the
  third navigation pattern ends at the first whitespace, and the target is \<open>"sign"\<close>.
\<close>

theorem parse_user_command_examples:
  "parse_user_command ''go back'' = Inr Back \<and>
   parse_user_command ''show me the pricing section'' = Inr (Section ''pricing'' ''pricing'') \<and>
   parse_user_command ''click sign up'' = Inr (Navigation ''sign'' ''sign'') \<and>
   parse_user_command ''asdkjfh'' = Inr (Unknown ''asdkjfh'')"
  by code_simp

text \<open>
  Claim C10. The phrases of \<open>Back\<close> are looked for first, as substrings of the normalized
  input: an input that contains one of them is classified \<open>Back\<close>, whatever the section and
  navigation patterns would find in it.
\<close>

theorem back_phrase_takes_precedence:
  assumes "phrase \<in> set [''back'', ''previous page'', ''go back'', ''return'']"
    and "str_in phrase (normalize_text x)"
  shows "parse_user_command x = Inr Back"
proof -
  from assms have
    "list_ex (\<lambda>phrase. str_in phrase (normalize_text x))
       [''back'', ''previous page'', ''go back'', ''return'']"
    unfolding list_ex_iff by blast
  then show ?thesis
    by (simp add: parse_user_command_def special_commands_def Let_def)
qed

theorem back_phrase_takes_precedence_witness:
  "''back'' \<in> set [''back'', ''previous page'', ''go back'', ''return''] \<and>
   str_in ''back'' (normalize_text ''go to the background section'') \<and>
   first_match section_patterns (normalize_text ''go to the background section'')
     = Some (Some ''background'') \<and>
   parse_user_command ''go to the background section'' = Inr Back \<and>
   ''return'' \<in> set [''back'', ''previous page'', ''go back'', ''return''] \<and>
   str_in ''return'' (normalize_text ''show returns policy'') \<and>
   first_match navigation_patterns (normalize_text ''show returns policy'')
     = Some (Some ''returns'') \<and>
   parse_user_command ''show returns policy'' = Inr Back"
proof -
  have m1: "''back'' \<in> set [''back'', ''previous page'', ''go back'', ''return'']"
    and m2: "''return'' \<in> set [''back'', ''previous page'', ''go back'', ''return'']"
    by simp_all
  have s1: "str_in ''back'' (normalize_text ''go to the background section'')"
    by code_simp
  have s2: "str_in ''return'' (normalize_text ''show returns policy'')"
    by code_simp
  have f1: "first_match section_patterns (normalize_text ''go to the background section'')
     = Some (Some ''background'')"
    by code_simp
  have f2: "first_match navigation_patterns (normalize_text ''show returns policy'')
     = Some (Some ''returns'')"
    by code_simp
  from back_phrase_takes_precedence [OF m1 s1] back_phrase_takes_precedence [OF m2 s2]
    m1 m2 s1 s2 f1 f2
  show ?thesis by blast
qed

section \<open>The matcher\<close>

lemma find_best_match_loop_Cons:
  "find_best_match_loop (normalize_text t) thr (c # cs) (bm, bs) =
     (if normalize_text t = normalize_text c then (Some c, 1)
      else if words_of t \<noteq> {} \<and> bs < overlap_ratio t c \<and> thr \<le> overlap_ratio t c
           then find_best_match_loop (normalize_text t) thr cs (Some c, overlap_ratio t c)
           else find_best_match_loop (normalize_text t) thr cs (bm, bs))"
  by (simp add: Let_def words_of_def overlap_ratio_def)

lemma find_best_match_loop_exact:
  assumes "\<forall>d\<in>set pre. normalize_text d \<noteq> normalize_text t"
    and "normalize_text c = normalize_text t"
  shows "find_best_match_loop (normalize_text t) thr (pre @ c # post) acc = (Some c, 1)"
  using assms
proof (induction pre arbitrary: acc)
  case Nil
  then show ?case by (cases acc) (simp only: append_Nil find_best_match_loop_Cons, simp)
next
  case (Cons d pre)
  then have d: "normalize_text t \<noteq> normalize_text d"
    and r: "\<forall>d\<in>set pre. normalize_text d \<noteq> normalize_text t" by auto
  obtain bm bs where acc: "acc = (bm, bs)" by (cases acc)
  show ?case
    unfolding acc append_Cons find_best_match_loop_Cons
    using d Cons.IH [OF r Cons.prems(2)] by simp
qed

lemma find_best_match_loop_scores:
  assumes "\<forall>d\<in>set cs. normalize_text d \<noteq> normalize_text t"
  shows "(find_best_match_loop (normalize_text t) thr cs (bm, bs) = (bm, bs) \<and>
          (\<forall>d\<in>set cs. \<not> (words_of t \<noteq> {} \<and> bs < overlap_ratio t d \<and> thr \<le> overlap_ratio t d)))
       \<or> (\<exists>pre c post. cs = pre @ c # post \<and>
            find_best_match_loop (normalize_text t) thr cs (bm, bs) = (Some c, overlap_ratio t c) \<and>
            words_of t \<noteq> {} \<and> bs < overlap_ratio t c \<and> thr \<le> overlap_ratio t c \<and>
            (\<forall>d\<in>set pre. overlap_ratio t d < overlap_ratio t c) \<and>
            (\<forall>d\<in>set post. overlap_ratio t d \<le> overlap_ratio t c))"
  using assms
proof (induction cs arbitrary: bm bs)
  case Nil
  show ?case by simp
next
  case (Cons a cs)
  then have a: "normalize_text t \<noteq> normalize_text a"
    and r: "\<forall>d\<in>set cs. normalize_text d \<noteq> normalize_text t" by auto
  let ?L = "find_best_match_loop (normalize_text t) thr"
  let ?s = "overlap_ratio t"
  show ?case
  proof (cases "words_of t \<noteq> {} \<and> bs < ?s a \<and> thr \<le> ?s a")
    case True
    then have step: "?L (a # cs) (bm, bs) = ?L cs (Some a, ?s a)"
      using a by (subst find_best_match_loop_Cons) simp
    from Cons.IH [OF r, of "Some a" "?s a"] show ?thesis
    proof (elim disjE conjE exE)
      assume same: "?L cs (Some a, ?s a) = (Some a, ?s a)"
        and none: "\<forall>d\<in>set cs. \<not> (words_of t \<noteq> {} \<and> ?s a < ?s d \<and> thr \<le> ?s d)"
      have "\<forall>d\<in>set cs. ?s d \<le> ?s a"
      proof
        fix d assume "d \<in> set cs"
        with none True show "?s d \<le> ?s a" by (cases "?s a < ?s d") auto
      qed
      with same step True have
        "a # cs = [] @ a # cs \<and> ?L (a # cs) (bm, bs) = (Some a, ?s a) \<and>
         words_of t \<noteq> {} \<and> bs < ?s a \<and> thr \<le> ?s a \<and>
         (\<forall>d\<in>set []. ?s d < ?s a) \<and> (\<forall>d\<in>set cs. ?s d \<le> ?s a)"
        by simp
      then show ?thesis by blast
    next
      fix pre c post
      assume cs: "cs = pre @ c # post"
        and res: "?L cs (Some a, ?s a) = (Some c, ?s c)"
        and w: "words_of t \<noteq> {}" and gt: "?s a < ?s c" and thr: "thr \<le> ?s c"
        and pre: "\<forall>d\<in>set pre. ?s d < ?s c" and post: "\<forall>d\<in>set post. ?s d \<le> ?s c"
      from True gt have "bs < ?s c" by simp
      with cs res step w gt thr pre post have
        "a # cs = (a # pre) @ c # post \<and> ?L (a # cs) (bm, bs) = (Some c, ?s c) \<and>
         words_of t \<noteq> {} \<and> bs < ?s c \<and> thr \<le> ?s c \<and>
         (\<forall>d\<in>set (a # pre). ?s d < ?s c) \<and> (\<forall>d\<in>set post. ?s d \<le> ?s c)"
        by simp
      then show ?thesis by blast
    qed
  next
    case False
    then have step: "?L (a # cs) (bm, bs) = ?L cs (bm, bs)"
      using a by (subst find_best_match_loop_Cons) auto
    from Cons.IH [OF r, of bm bs] show ?thesis
    proof (elim disjE conjE exE)
      assume same: "?L cs (bm, bs) = (bm, bs)"
        and none: "\<forall>d\<in>set cs. \<not> (words_of t \<noteq> {} \<and> bs < ?s d \<and> thr \<le> ?s d)"
      with step False show ?thesis by simp
    next
      fix pre c post
      assume cs: "cs = pre @ c # post"
        and res: "?L cs (bm, bs) = (Some c, ?s c)"
        and w: "words_of t \<noteq> {}" and gt: "bs < ?s c" and thr: "thr \<le> ?s c"
        and pre: "\<forall>d\<in>set pre. ?s d < ?s c" and post: "\<forall>d\<in>set post. ?s d \<le> ?s c"
      from False w gt thr have "?s a < ?s c" by auto
      with cs res step w gt thr pre post have
        "a # cs = (a # pre) @ c # post \<and> ?L (a # cs) (bm, bs) = (Some c, ?s c) \<and>
         words_of t \<noteq> {} \<and> bs < ?s c \<and> thr \<le> ?s c \<and>
         (\<forall>d\<in>set (a # pre). ?s d < ?s c) \<and> (\<forall>d\<in>set post. ?s d \<le> ?s c)"
        by simp
      then show ?thesis by blast
    qed
  qed
qed

lemma overlap_ratio_pos_words: "0 < overlap_ratio t c \<Longrightarrow> words_of t \<noteq> {}"
  by (auto simp: overlap_ratio_def round_double_def)

text \<open>
  Claim C2, as the specification states it, fails in two places. With a threshold of 0 a
  candidate that shares no word with the target is at the threshold and is not returned,
  since a candidate replaces the best one only when its score is above the best score,
  which starts at 0. And an empty target is matched by a candidate whose normal form is
  empty, with score 1, although the target has no word.
\<close>

theorem find_best_match_counterexample:
  "normalize_text ''abc'' \<noteq> normalize_text ''xyz'' \<and>
   (0::rat) \<le> overlap_ratio ''xyz'' ''abc'' \<and>
   find_best_match ''xyz'' [''abc''] 0 = (None, 0) \<and>
   words_of '''' = {} \<and>
   find_best_match '''' [''  ''] (1/2) = (Some ''  '', 1)"
  by code_simp

text \<open>
  Claim C2, amended. If some candidate has the normal form of the target, the first such
  candidate is returned with score 1. Otherwise, if some candidate has a score that is
  positive and at or above the threshold, the result is the first candidate of the highest
  score, with that score, which is at or above the threshold; and if there is none (also
  when the target has no word) the result is \<open>(None, 0)\<close>. Scores are doubles: the
  score of one word out of three is \<open>0.3333333333333333\<close>, and one word out of ten
  reaches the threshold \<open>0.1\<close>. The example of the specification returns
  \<open>"Sign Up Now"\<close> with score 1.
\<close>

theorem find_best_match_result:
  "((\<exists>c\<in>set candidates. normalize_text c = normalize_text target) \<longrightarrow>
      (\<exists>pre c post. candidates = pre @ c # post \<and>
         (\<forall>d\<in>set pre. normalize_text d \<noteq> normalize_text target) \<and>
         normalize_text c = normalize_text target \<and>
         find_best_match target candidates threshold = (Some c, 1))) \<and>
   ((\<forall>c\<in>set candidates. normalize_text c \<noteq> normalize_text target) \<longrightarrow>
      (if \<exists>c\<in>set candidates. 0 < overlap_ratio target c \<and> threshold \<le> overlap_ratio target c
       then \<exists>pre c post. candidates = pre @ c # post \<and>
              find_best_match target candidates threshold = (Some c, overlap_ratio target c) \<and>
              0 < overlap_ratio target c \<and> threshold \<le> overlap_ratio target c \<and>
              (\<forall>d\<in>set pre. overlap_ratio target d < overlap_ratio target c) \<and>
              (\<forall>d\<in>set post. overlap_ratio target d \<le> overlap_ratio target c)
       else find_best_match target candidates threshold = (None, 0))) \<and>
   find_best_match ''sign up'' [''Sign Up Now'', ''Log In''] (1/2) = (Some ''Sign Up Now'', 1) \<and>
   find_best_match ''a b c'' [''x'', ''c d''] (1/4) = (Some ''c d'', double_1_3) \<and>
   find_best_match ''a b c d e f g h i j'' [''a''] double_0_1 = (Some ''a'', double_0_1)"
proof (intro conjI impI)
  assume "\<exists>c\<in>set candidates. normalize_text c = normalize_text target"
  from split_list_first_prop [OF this] obtain pre c post where
    cs: "candidates = pre @ c # post" and c: "normalize_text c = normalize_text target"
    and pre: "\<forall>d\<in>set pre. normalize_text d \<noteq> normalize_text target"
    by blast
  from find_best_match_loop_exact [OF pre c]
  have "find_best_match target candidates threshold = (Some c, 1)"
    by (simp add: find_best_match_def cs)
  with cs c pre show "\<exists>pre c post. candidates = pre @ c # post \<and>
         (\<forall>d\<in>set pre. normalize_text d \<noteq> normalize_text target) \<and>
         normalize_text c = normalize_text target \<and>
         find_best_match target candidates threshold = (Some c, 1)"
    by blast
next
  assume ne: "\<forall>c\<in>set candidates. normalize_text c \<noteq> normalize_text target"
  let ?s = "overlap_ratio target"
  let ?P = "\<exists>c\<in>set candidates. 0 < ?s c \<and> threshold \<le> ?s c"
  from find_best_match_loop_scores [OF ne, of threshold None 0]
  have alt:
    "(find_best_match target candidates threshold = (None, 0) \<and>
      (\<forall>d\<in>set candidates. \<not> (words_of target \<noteq> {} \<and> 0 < ?s d \<and> threshold \<le> ?s d)))
     \<or> (\<exists>pre c post. candidates = pre @ c # post \<and>
          find_best_match target candidates threshold = (Some c, ?s c) \<and>
          words_of target \<noteq> {} \<and> 0 < ?s c \<and> threshold \<le> ?s c \<and>
          (\<forall>d\<in>set pre. ?s d < ?s c) \<and> (\<forall>d\<in>set post. ?s d \<le> ?s c))"
    by (simp only: find_best_match_def)
  show "if ?P
       then \<exists>pre c post. candidates = pre @ c # post \<and>
              find_best_match target candidates threshold = (Some c, ?s c) \<and>
              0 < ?s c \<and> threshold \<le> ?s c \<and>
              (\<forall>d\<in>set pre. ?s d < ?s c) \<and> (\<forall>d\<in>set post. ?s d \<le> ?s c)
       else find_best_match target candidates threshold = (None, 0)"
  proof (cases ?P)
    case True
    then obtain c where c: "c \<in> set candidates" "0 < ?s c" "threshold \<le> ?s c" by blast
    from c(2) have "words_of target \<noteq> {}" by (rule overlap_ratio_pos_words)
    with c alt have
      "\<exists>pre c post. candidates = pre @ c # post \<and>
          find_best_match target candidates threshold = (Some c, ?s c) \<and>
          words_of target \<noteq> {} \<and> 0 < ?s c \<and> threshold \<le> ?s c \<and>
          (\<forall>d\<in>set pre. ?s d < ?s c) \<and> (\<forall>d\<in>set post. ?s d \<le> ?s c)"
      by blast
    then have
      "\<exists>pre c post. candidates = pre @ c # post \<and>
          find_best_match target candidates threshold = (Some c, ?s c) \<and>
          0 < ?s c \<and> threshold \<le> ?s c \<and>
          (\<forall>d\<in>set pre. ?s d < ?s c) \<and> (\<forall>d\<in>set post. ?s d \<le> ?s c)"
      by blast
    with True show ?thesis by (simp only: if_True)
  next
    case False
    have "find_best_match target candidates threshold = (None, 0)"
      using alt
    proof (elim disjE conjE exE)
      fix pre c post
      assume "candidates = pre @ c # post" "0 < ?s c" "threshold \<le> ?s c"
      then have ?P by auto
      with False show ?thesis by blast
    qed
    with False show ?thesis by (simp only: if_False)
  qed
next
  show "find_best_match ''sign up'' [''Sign Up Now'', ''Log In''] (1/2) = (Some ''Sign Up Now'', 1)"
    by code_simp
next
  show "find_best_match ''a b c'' [''x'', ''c d''] (1/4) = (Some ''c d'', double_1_3)"
    by code_simp
next
  show "find_best_match ''a b c d e f g h i j'' [''a''] double_0_1 = (Some ''a'', double_0_1)"
    by code_simp
qed

theorem find_best_match_result_witness:
  "normalize_text ''Log In'' = normalize_text ''log in'' \<and>
   snd (find_best_match ''log in'' [''Sign Up Now'', ''Log In''] (1/2)) = 1 \<and>
   normalize_text ''Sign Up Now'' \<noteq> normalize_text ''sign up'' \<and>
   normalize_text ''Log In'' \<noteq> normalize_text ''sign up'' \<and>
   0 < overlap_ratio ''sign up'' ''Sign Up Now'' \<and>
   1/2 \<le> overlap_ratio ''sign up'' ''Sign Up Now'' \<and>
   fst (find_best_match ''sign up'' [''Sign Up Now'', ''Log In''] (1/2)) \<noteq> None \<and>
   normalize_text ''abc'' \<noteq> normalize_text ''xyz'' \<and>
   overlap_ratio ''xyz'' ''abc'' = 0 \<and>
   find_best_match ''xyz'' [''abc''] (1/2) = (None, 0)"
proof -
  have a: "\<exists>c\<in>set [''Sign Up Now'', ''Log In'']. normalize_text c = normalize_text ''log in''"
    by code_simp
  have b1: "\<forall>c\<in>set [''Sign Up Now'', ''Log In'']. normalize_text c \<noteq> normalize_text ''sign up''"
    by code_simp
  have b2: "\<exists>c\<in>set [''Sign Up Now'', ''Log In''].
      0 < overlap_ratio ''sign up'' c \<and> 1/2 \<le> overlap_ratio ''sign up'' c"
    by code_simp
  have c1: "\<forall>c\<in>set [''abc'']. normalize_text c \<noteq> normalize_text ''xyz''"
    by code_simp
  have c2: "\<not> (\<exists>c\<in>set [''abc'']. 0 < overlap_ratio ''xyz'' c \<and> 1/2 \<le> overlap_ratio ''xyz'' c)"
    by code_simp
  note A = find_best_match_result [of "[''Sign Up Now'', ''Log In'']" "''log in''" "1/2"]
  note B = find_best_match_result [of "[''Sign Up Now'', ''Log In'']" "''sign up''" "1/2"]
  note C = find_best_match_result [of "[''abc'']" "''xyz''" "1/2"]
  from A a have ra: "\<exists>pre c post. [''Sign Up Now'', ''Log In''] = pre @ c # post \<and>
      (\<forall>d\<in>set pre. normalize_text d \<noteq> normalize_text ''log in'') \<and>
      normalize_text c = normalize_text ''log in'' \<and>
      find_best_match ''log in'' [''Sign Up Now'', ''Log In''] (1/2) = (Some c, 1)"
    by blast
  from B b1 have "if \<exists>c\<in>set [''Sign Up Now'', ''Log In''].
      0 < overlap_ratio ''sign up'' c \<and> 1/2 \<le> overlap_ratio ''sign up'' c
    then \<exists>pre c post. [''Sign Up Now'', ''Log In''] = pre @ c # post \<and>
      find_best_match ''sign up'' [''Sign Up Now'', ''Log In''] (1/2)
        = (Some c, overlap_ratio ''sign up'' c) \<and>
      0 < overlap_ratio ''sign up'' c \<and> 1/2 \<le> overlap_ratio ''sign up'' c \<and>
      (\<forall>d\<in>set pre. overlap_ratio ''sign up'' d < overlap_ratio ''sign up'' c) \<and>
      (\<forall>d\<in>set post. overlap_ratio ''sign up'' d \<le> overlap_ratio ''sign up'' c)
    else find_best_match ''sign up'' [''Sign Up Now'', ''Log In''] (1/2) = (None, 0)"
    by blast
  with b2 have rb: "\<exists>pre c post. [''Sign Up Now'', ''Log In''] = pre @ c # post \<and>
      find_best_match ''sign up'' [''Sign Up Now'', ''Log In''] (1/2)
        = (Some c, overlap_ratio ''sign up'' c) \<and>
      0 < overlap_ratio ''sign up'' c \<and> 1/2 \<le> overlap_ratio ''sign up'' c \<and>
      (\<forall>d\<in>set pre. overlap_ratio ''sign up'' d < overlap_ratio ''sign up'' c) \<and>
      (\<forall>d\<in>set post. overlap_ratio ''sign up'' d \<le> overlap_ratio ''sign up'' c)"
    by (simp only: if_True)
  from C c1 have "if \<exists>c\<in>set [''abc'']. 0 < overlap_ratio ''xyz'' c \<and> 1/2 \<le> overlap_ratio ''xyz'' c
    then \<exists>pre c post. [''abc''] = pre @ c # post \<and>
      find_best_match ''xyz'' [''abc''] (1/2) = (Some c, overlap_ratio ''xyz'' c) \<and>
      0 < overlap_ratio ''xyz'' c \<and> 1/2 \<le> overlap_ratio ''xyz'' c \<and>
      (\<forall>d\<in>set pre. overlap_ratio ''xyz'' d < overlap_ratio ''xyz'' c) \<and>
      (\<forall>d\<in>set post. overlap_ratio ''xyz'' d \<le> overlap_ratio ''xyz'' c)
    else find_best_match ''xyz'' [''abc''] (1/2) = (None, 0)"
    by blast
  with c2 have rc: "find_best_match ''xyz'' [''abc''] (1/2) = (None, 0)"
    by (simp only: if_False)
  have e1: "normalize_text ''Log In'' = normalize_text ''log in''"
    and e2: "normalize_text ''Sign Up Now'' \<noteq> normalize_text ''sign up''"
    and e3: "normalize_text ''Log In'' \<noteq> normalize_text ''sign up''"
    and e4: "0 < overlap_ratio ''sign up'' ''Sign Up Now''"
    and e5: "1/2 \<le> overlap_ratio ''sign up'' ''Sign Up Now''"
    and e6: "normalize_text ''abc'' \<noteq> normalize_text ''xyz''"
    and e7: "overlap_ratio ''xyz'' ''abc'' = 0"
    by code_simp+
  from ra have r1: "snd (find_best_match ''log in'' [''Sign Up Now'', ''Log In''] (1/2)) = 1"
    by auto
  from rb have r2: "fst (find_best_match ''sign up'' [''Sign Up Now'', ''Log In''] (1/2)) \<noteq> None"
    by auto
  from e1 r1 e2 e3 e4 e5 r2 e6 e7 rc show ?thesis by (intro conjI)
qed

section \<open>The page extractor\<close>

lemma headings_loop_eq:
  "headings_loop hs acc = acc @ map heading_of (filter (\<lambda>h. strip (get_text h) \<noteq> []) hs)"
  by (induction hs arbitrary: acc) (simp_all add: heading_of_def Let_def)

lemma find_all_headings:
  "find_all [''h1'', ''h2'', ''h3''] soup = filter is_heading (descendants soup)"
  unfolding find_all_def
  by (rule filter_cong) (auto simp: is_heading_def split: option.splits)

lemma is_heading_level: "is_heading e \<Longrightarrow> name_level (node_name e) \<in> {1, 2, 3}"
  by (auto simp: is_heading_def name_level_def)

text \<open>
  Claim C8. The headings that are extracted are the tags \<open>h1\<close>, \<open>h2\<close> and \<open>h3\<close> of the
  document whose stripped text is not empty, each once, in document order. So every
  extracted heading has a level from 1 to 3 and a text that is not empty; a heading
  without text and a tag \<open>h4\<close> or deeper give no entry.
\<close>

theorem extract_headings_document_order:
  "extract_headings soup =
     map heading_of
       (filter (\<lambda>e. is_heading e \<and> strip (get_text e) \<noteq> []) (descendants soup)) \<and>
   (\<forall>h\<in>set (extract_headings soup). heading_level h \<in> {1, 2, 3} \<and> heading_text h \<noteq> [])"
proof -
  have eq: "extract_headings soup =
     map heading_of
       (filter (\<lambda>e. is_heading e \<and> strip (get_text e) \<noteq> []) (descendants soup))"
    by (simp add: extract_headings_def headings_loop_eq find_all_headings conj_commute)
  have "heading_level h \<in> {1, 2, 3} \<and> heading_text h \<noteq> []"
    if "h \<in> set (extract_headings soup)" for h
  proof -
    from that obtain e where "is_heading e" "strip (get_text e) \<noteq> []" "h = heading_of e"
      unfolding eq by auto
    then show ?thesis using is_heading_level [of e] by (simp add: heading_of_def)
  qed
  with eq show ?thesis by blast
qed

theorem extract_headings_document_order_witness:
  "extract_headings example_page =
     [\<lparr>heading_text = ''Welcome'', heading_level = 1, heading_id = ''top''\<rparr>,
      \<lparr>heading_text = ''Plans'', heading_level = 2, heading_id = []\<rparr>,
      \<lparr>heading_text = ''Contact'', heading_level = 3, heading_id = []\<rparr>]"
proof -
  have "map heading_of
       (filter (\<lambda>e. is_heading e \<and> strip (get_text e) \<noteq> []) (descendants example_page)) =
     [\<lparr>heading_text = ''Welcome'', heading_level = 1, heading_id = ''top''\<rparr>,
      \<lparr>heading_text = ''Plans'', heading_level = 2, heading_id = []\<rparr>,
      \<lparr>heading_text = ''Contact'', heading_level = 3, heading_id = []\<rparr>]"
    by code_simp
  with extract_headings_document_order [of example_page] show ?thesis by simp
qed

subsection \<open>Dictionaries\<close>

lemma dict_set_keys:
  "map fst (dict_set d k v) = (if dict_has d k then map fst d else map fst d @ [k])"
  by (induction d) (force simp: dict_has_def)+

lemma dict_set_new: "\<not> dict_has d k \<Longrightarrow> dict_set d k v = d @ [(k, v)]"
  by (induction d) (auto simp: dict_has_def)

lemma map_of_dict_set: "map_of (dict_set d k v) = (map_of d)(k \<mapsto> v)"
  by (induction d) auto

lemma dict_set_distinct: "distinct (map fst d) \<Longrightarrow> distinct (map fst (dict_set d k v))"
  by (simp add: dict_set_keys dict_has_def)

lemma dict_has_map_of: "dict_has d k = (map_of d k \<noteq> None)"
  by (simp add: dict_has_def map_of_eq_None_iff)

lemma dict_has_set: "dict_has (dict_set d k v) k' = (k' = k \<or> dict_has d k')"
  by (auto simp: dict_has_map_of map_of_dict_set)

lemma dict_get_Inr: "(dict_get d k = Inr v) = (map_of d k = Some v)"
  by (simp add: dict_get_def split: option.splits)

lemma dict_get_has: "dict_has d k \<Longrightarrow> \<exists>v. dict_get d k = Inr v"
  by (auto simp: dict_has_map_of dict_get_def split: option.splits)

lemma list_all_dict_set: "list_all P d \<Longrightarrow> P (k, v) \<Longrightarrow> list_all P (dict_set d k v)"
  by (induction d) auto

lemma list_all_map_of: "list_all P d \<Longrightarrow> map_of d k = Some v \<Longrightarrow> P (k, v)"
  by (auto simp: list_all_iff dest: map_of_SomeD)

subsection \<open>Substrings and deduplicated lists\<close>

lemma startswith_refl: "startswith s s"
  by (induction s) simp_all

lemma str_in_refl: "str_in x x"
  by (cases x) (simp_all add: startswith_refl)

lemma deduped_snoc:
  "deduped (ps @ [x]) = (x \<noteq> [] \<and> \<not> list_ex (\<lambda>existing. str_in x existing) ps \<and> deduped ps)"
  by (simp add: deduped_def list_ex_iff)

lemma deduped_rev_distinct: "deduped_rev ps \<Longrightarrow> distinct ps \<and> [] \<notin> set ps"
proof (induction ps)
  case Nil
  show ?case by simp
next
  case (Cons x ps)
  then have "x \<notin> set ps" using str_in_refl [of x] by (auto simp: list_ex_iff)
  with Cons show ?case by auto
qed

lemma deduped_distinct: "deduped ps \<Longrightarrow> distinct ps \<and> [] \<notin> set ps"
  using deduped_rev_distinct [of "rev ps"] by (simp add: deduped_def)

lemma distinct_count_le_1: "distinct ps \<Longrightarrow> count_list ps t \<le> 1"
  by (induction ps) (auto simp: count_list_0_iff)

subsection \<open>One step of the sectioned-text loop\<close>

lemma main_text_loop_heading:
  assumes "node_name e \<in> Some ` set [''h1'', ''h2'', ''h3'']"
  shows "main_text_loop (e # rest) (cs, mt) =
           main_text_loop rest
             (strip (get_text e),
              if dict_has mt (strip (get_text e)) then mt
              else dict_set mt (strip (get_text e)) [])"
  using assms by (simp add: Let_def)

lemma main_text_loop_container:
  assumes "node_name e \<in> Some ` set [''p'', ''div'']" and "dict_get mt cs = Inr ps"
  shows "main_text_loop (e # rest) (cs, mt) =
           main_text_loop rest
             (cs,
              if join '' '' (stripped_strings e) \<noteq> [] \<and>
                 \<not> list_ex (\<lambda>existing. str_in (join '' '' (stripped_strings e)) existing) ps
              then dict_set mt cs (ps @ [join '' '' (stripped_strings e)])
              else mt)"
proof -
  from assms(1) have "node_name e \<notin> Some ` set [''h1'', ''h2'', ''h3'']" by auto
  with assms show ?thesis by (simp add: Let_def)
qed

lemma main_text_loop_other:
  assumes "node_name e \<notin> Some ` set [''h1'', ''h2'', ''h3'']"
    and "node_name e \<notin> Some ` set [''p'', ''div'']"
  shows "main_text_loop (e # rest) (cs, mt) = main_text_loop rest (cs, mt)"
  using assms by simp

lemma main_text_grows_refl: "main_text_grows d d"
  by (simp add: main_text_grows_def)

lemma main_text_grows_trans:
  "main_text_grows a b \<Longrightarrow> main_text_grows b c \<Longrightarrow> main_text_grows a c"
  unfolding main_text_grows_def by (metis append.assoc)

lemma main_text_grows_new:
  "\<not> dict_has d k \<Longrightarrow> main_text_grows d (dict_set d k v)"
  by (auto simp: main_text_grows_def map_of_dict_set dict_has_map_of)

lemma main_text_grows_append:
  "map_of d k = Some ps \<Longrightarrow> main_text_grows d (dict_set d k (ps @ [t]))"
  by (auto simp: main_text_grows_def map_of_dict_set)

lemma main_text_step:
  assumes inv: "main_text_inv (cs, mt)"
  shows "\<exists>cs1 mt1. (\<forall>rest. main_text_loop (e # rest) (cs, mt) = main_text_loop rest (cs1, mt1)) \<and>
           main_text_inv (cs1, mt1) \<and> main_text_grows mt mt1"
proof -
  from inv have has: "dict_has mt cs" and mc: "dict_has mt ''Main Content''"
    and dist: "distinct (map fst mt)" and all: "list_all (\<lambda>(k, ps). deduped ps) mt"
    by (simp_all add: main_text_inv_def)
  consider (heading) "node_name e \<in> Some ` set [''h1'', ''h2'', ''h3'']"
    | (container) "node_name e \<in> Some ` set [''p'', ''div'']"
    | (other) "node_name e \<notin> Some ` set [''h1'', ''h2'', ''h3'']"
        "node_name e \<notin> Some ` set [''p'', ''div'']"
    by blast
  then show ?thesis
  proof cases
    case heading
    let ?t = "strip (get_text e)"
    let ?mt1 = "if dict_has mt ?t then mt else dict_set mt ?t []"
    have step: "\<forall>rest. main_text_loop (e # rest) (cs, mt) = main_text_loop rest (?t, ?mt1)"
      using main_text_loop_heading [OF heading] by blast
    have "deduped []" by (simp add: deduped_def)
    with mc dist all have "main_text_inv (?t, ?mt1)"
      by (simp add: main_text_inv_def dict_has_set dict_set_distinct list_all_dict_set)
    moreover have "main_text_grows mt ?mt1"
      by (simp add: main_text_grows_refl main_text_grows_new)
    ultimately show ?thesis using step by blast
  next
    case container
    let ?t = "join '' '' (stripped_strings e)"
    from dict_get_has [OF has] obtain ps where ps: "dict_get mt cs = Inr ps" by blast
    then have m: "map_of mt cs = Some ps" by (simp add: dict_get_Inr)
    let ?new = "?t \<noteq> [] \<and> \<not> list_ex (\<lambda>existing. str_in ?t existing) ps"
    let ?mt1 = "if ?new then dict_set mt cs (ps @ [?t]) else mt"
    have step: "\<forall>rest. main_text_loop (e # rest) (cs, mt) = main_text_loop rest (cs, ?mt1)"
      using main_text_loop_container [OF container ps] by blast
    from list_all_map_of [OF all m] have "deduped ps" by simp
    then have "deduped (ps @ [?t])" if ?new using that by (simp add: deduped_snoc)
    with has mc dist all have "main_text_inv (cs, ?mt1)"
      by (simp add: main_text_inv_def dict_has_set dict_set_distinct list_all_dict_set)
    moreover have "main_text_grows mt ?mt1"
      using m by (simp add: main_text_grows_refl main_text_grows_append)
    ultimately show ?thesis using step by blast
  next
    case other
    from main_text_loop_other [OF other] inv main_text_grows_refl [of mt]
    show ?thesis by blast
  qed
qed

lemma main_text_loop_total:
  assumes "main_text_inv st"
  shows "\<exists>st'. main_text_loop es st = Inr st' \<and> main_text_inv st' \<and>
           main_text_grows (snd st) (snd st')"
  using assms
proof (induction es arbitrary: st)
  case Nil
  then show ?case by (cases st) (simp add: main_text_grows_refl)
next
  case (Cons e es)
  obtain cs mt where st: "st = (cs, mt)" by (cases st)
  from main_text_step [of cs mt e] Cons.prems st obtain cs1 mt1 where
    step: "main_text_loop (e # es) (cs, mt) = main_text_loop es (cs1, mt1)"
    and inv1: "main_text_inv (cs1, mt1)" and g1: "main_text_grows mt mt1"
    by blast
  from Cons.IH [OF inv1] obtain st' where
    r: "main_text_loop es (cs1, mt1) = Inr st'" and inv': "main_text_inv st'"
    and g2: "main_text_grows mt1 (snd st')"
    by auto
  from g1 g2 have "main_text_grows mt (snd st')" by (rule main_text_grows_trans)
  with step r inv' st show ?case by simp
qed

lemma main_text_loop_append:
  "main_text_loop (xs @ ys) st =
     (case main_text_loop xs st of Inl err \<Rightarrow> Inl err | Inr st' \<Rightarrow> main_text_loop ys st')"
proof (induction xs arbitrary: st)
  case Nil
  show ?case by (cases st) simp
next
  case (Cons e xs)
  obtain cs mt where st: "st = (cs, mt)" by (cases st)
  show ?case
    unfolding st append_Cons
    by (simp add: Let_def Cons.IH split: sum.splits del: dict_set.simps)
qed

lemma main_text_init_inv: "main_text_inv (''Main Content'', dict_set [] ''Main Content'' [])"
  by (simp add: main_text_inv_def dict_has_def deduped_def)

lemma extract_main_text_total:
  "\<exists>cs mt. main_text_loop (find_all [''h1'', ''h2'', ''h3'', ''p'', ''div''] soup)
              (''Main Content'', dict_set [] ''Main Content'' []) = Inr (cs, mt) \<and>
           extract_main_text soup = Inr mt \<and> main_text_inv (cs, mt)"
proof -
  from main_text_loop_total [OF main_text_init_inv] obtain st' where
    "main_text_loop (find_all [''h1'', ''h2'', ''h3'', ''p'', ''div''] soup)
       (''Main Content'', dict_set [] ''Main Content'' []) = Inr st'" and "main_text_inv st'"
    by blast
  then show ?thesis by (cases st') (simp add: extract_main_text_def)
qed

subsection \<open>The keys of the sectioned text\<close>

lemma remdups_later: "t \<in> set ys \<Longrightarrow> remdups (xs @ t # ys) = remdups (xs @ ys)"
  by (induction xs) auto

lemma is_heading_loop: "(node_name e \<in> Some ` set [''h1'', ''h2'', ''h3'']) = is_heading e"
  by (auto simp: is_heading_def)

lemma main_text_step_keys:
  assumes inv: "main_text_inv (cs, mt)"
  shows "\<exists>cs1 mt1. (\<forall>rest. main_text_loop (e # rest) (cs, mt) = main_text_loop rest (cs1, mt1)) \<and>
           main_text_inv (cs1, mt1) \<and>
           map fst mt1 =
             (if is_heading e \<and> \<not> dict_has mt (strip (get_text e))
              then map fst mt @ [strip (get_text e)] else map fst mt)"
proof -
  from inv have has: "dict_has mt cs" and mc: "dict_has mt ''Main Content''"
    and dist: "distinct (map fst mt)" and all: "list_all (\<lambda>(k, ps). deduped ps) mt"
    by (simp_all add: main_text_inv_def)
  consider (heading) "node_name e \<in> Some ` set [''h1'', ''h2'', ''h3'']"
    | (container) "node_name e \<in> Some ` set [''p'', ''div'']"
    | (other) "node_name e \<notin> Some ` set [''h1'', ''h2'', ''h3'']"
        "node_name e \<notin> Some ` set [''p'', ''div'']"
    by blast
  then show ?thesis
  proof cases
    case heading
    let ?t = "strip (get_text e)"
    let ?mt1 = "if dict_has mt ?t then mt else dict_set mt ?t []"
    have step: "\<forall>rest. main_text_loop (e # rest) (cs, mt) = main_text_loop rest (?t, ?mt1)"
      using main_text_loop_heading [OF heading] by blast
    have "deduped []" by (simp add: deduped_def)
    with mc dist all have i: "main_text_inv (?t, ?mt1)"
      by (simp add: main_text_inv_def dict_has_set dict_set_distinct list_all_dict_set)
    from heading have h: "is_heading e" by (simp only: is_heading_loop)
    have k: "map fst ?mt1 = (if is_heading e \<and> \<not> dict_has mt ?t then map fst mt @ [?t] else map fst mt)"
      using h by (simp add: dict_set_keys)
    from step i k show ?thesis by blast
  next
    case container
    let ?t = "join '' '' (stripped_strings e)"
    from container have nh: "\<not> is_heading e" by (auto simp: is_heading_def)
    from dict_get_has [OF has] obtain ps where ps: "dict_get mt cs = Inr ps" by blast
    then have m: "map_of mt cs = Some ps" by (simp add: dict_get_Inr)
    let ?new = "?t \<noteq> [] \<and> \<not> list_ex (\<lambda>existing. str_in ?t existing) ps"
    let ?mt1 = "if ?new then dict_set mt cs (ps @ [?t]) else mt"
    have step: "\<forall>rest. main_text_loop (e # rest) (cs, mt) = main_text_loop rest (cs, ?mt1)"
      using main_text_loop_container [OF container ps] by blast
    from list_all_map_of [OF all m] have "deduped ps" by simp
    then have "deduped (ps @ [?t])" if ?new using that by (simp add: deduped_snoc)
    with has mc dist all have i: "main_text_inv (cs, ?mt1)"
      by (simp add: main_text_inv_def dict_has_set dict_set_distinct list_all_dict_set)
    have "map fst ?mt1 = map fst mt" using has by (simp add: dict_set_keys)
    with nh have k: "map fst ?mt1 =
        (if is_heading e \<and> \<not> dict_has mt (strip (get_text e))
         then map fst mt @ [strip (get_text e)] else map fst mt)"
      by simp
    from step i k show ?thesis by blast
  next
    case other
    from other(1) have nh: "\<not> is_heading e" by (simp only: is_heading_loop not_False_eq_True)
    from nh have k: "map fst mt =
        (if is_heading e \<and> \<not> dict_has mt (strip (get_text e))
         then map fst mt @ [strip (get_text e)] else map fst mt)"
      by simp
    have step: "\<forall>rest. main_text_loop (e # rest) (cs, mt) = main_text_loop rest (cs, mt)"
      using main_text_loop_other [OF other] by blast
    from step inv k show ?thesis by blast
  qed
qed

lemma main_text_loop_keys:
  assumes "main_text_inv (cs, mt)"
  shows "\<exists>cs' mt'. main_text_loop es (cs, mt) = Inr (cs', mt') \<and>
           map fst mt' =
             rev (remdups (rev (map fst mt @
               map (\<lambda>h. strip (get_text h)) (filter is_heading es))))"
  using assms
proof (induction es arbitrary: cs mt)
  case Nil
  then have "distinct (map fst mt)" by (simp add: main_text_inv_def)
  then have "rev (remdups (rev (map fst mt))) = map fst mt"
    by (metis distinct_remdups_id distinct_rev rev_rev_ident)
  then have "map fst mt =
      rev (remdups (rev (map fst mt @ map (\<lambda>h. strip (get_text h)) (filter is_heading []))))"
    by (simp only: filter.simps list.map append_Nil2)
  moreover have "main_text_loop [] (cs, mt) = Inr (cs, mt)" by simp
  ultimately show ?case by blast
next
  case (Cons e es)
  let ?t = "strip (get_text e)"
  let ?T = "map (\<lambda>h. strip (get_text h)) (filter is_heading es)"
  from main_text_step_keys [OF Cons.prems, of e] obtain cs1 mt1 where
    step: "main_text_loop (e # es) (cs, mt) = main_text_loop es (cs1, mt1)"
    and inv1: "main_text_inv (cs1, mt1)"
    and k: "map fst mt1 =
             (if is_heading e \<and> \<not> dict_has mt ?t then map fst mt @ [?t] else map fst mt)"
    by blast
  from Cons.IH [OF inv1] obtain cs' mt' where
    r: "main_text_loop es (cs1, mt1) = Inr (cs', mt')"
    and k': "map fst mt' = rev (remdups (rev (map fst mt1 @ ?T)))"
    by blast
  have "rev (remdups (rev (map fst mt1 @ ?T))) =
        rev (remdups (rev (map fst mt @
               map (\<lambda>h. strip (get_text h)) (filter is_heading (e # es)))))"
  proof (cases "is_heading e")
    case False
    with k show ?thesis by simp
  next
    case True
    show ?thesis
    proof (cases "dict_has mt ?t")
      case False
      with True k show ?thesis by simp
    next
      case has: True
      then have "?t \<in> set (rev (map fst mt))" by (simp add: dict_has_def)
      from remdups_later [OF this, of "rev ?T"] True has k show ?thesis by simp
    qed
  qed
  with step r k' show ?case by simp
qed

lemma filter_heading_find_all:
  "filter is_heading (find_all [''h1'', ''h2'', ''h3'', ''p'', ''div''] soup)
     = filter is_heading (descendants soup)"
  unfolding find_all_def filter_filter
  by (rule filter_cong) (auto simp: is_heading_def)

lemma extract_main_text_keys:
  "\<exists>mt. extract_main_text soup = Inr mt \<and>
     map fst mt =
       rev (remdups (rev (''Main Content'' #
         map (\<lambda>h. strip (get_text h)) (filter is_heading (descendants soup)))))"
proof -
  from main_text_loop_keys [OF main_text_init_inv,
      of "find_all [''h1'', ''h2'', ''h3'', ''p'', ''div''] soup"]
  obtain cs' mt' where
    r: "main_text_loop (find_all [''h1'', ''h2'', ''h3'', ''p'', ''div''] soup)
          (''Main Content'', dict_set [] ''Main Content'' []) = Inr (cs', mt')"
    and k: "map fst mt' =
       rev (remdups (rev (map fst (dict_set [] ''Main Content'' ([]::string list)) @
         map (\<lambda>h. strip (get_text h))
           (filter is_heading (find_all [''h1'', ''h2'', ''h3'', ''p'', ''div''] soup)))))"
    by blast
  from r have "extract_main_text soup = Inr mt'" by (simp add: extract_main_text_def)
  moreover from k have "map fst mt' =
       rev (remdups (rev (''Main Content'' #
         map (\<lambda>h. strip (get_text h)) (filter is_heading (descendants soup)))))"
    by (simp add: filter_heading_find_all)
  ultimately show ?thesis by blast
qed

text \<open>
  Claim C6. Extraction of the sectioned text never fails. The keys of its result are
  \<open>Main Content\<close> and then the titles of the headings of the document in the order
  in which each title occurs first: \<open>Main Content\<close> is always a key, no key occurs
  twice, and a heading adds a key only if its title is not a key yet. For a document
  without elements the result is \<open>Main Content\<close> alone, with no paragraph. In the scan,
  a heading becomes the current section, and a new key (with no paragraph, at the end)
  only if its title is not a key yet.
\<close>

theorem main_content_section_exists:
  "(\<exists>mt. extract_main_text soup = Inr mt \<and> dict_has mt ''Main Content'' \<and>
          distinct (map fst mt) \<and>
          map fst mt =
            rev (remdups (rev (''Main Content'' #
              map (\<lambda>h. strip (get_text h)) (filter is_heading (descendants soup)))))) \<and>
   extract_main_text (Tag name attrs []) = Inr [(''Main Content'', [])] \<and>
   (node_name e \<in> Some ` set [''h1'', ''h2'', ''h3''] \<longrightarrow>
      main_text_loop (e # rest) (cs, mt0) =
        main_text_loop rest
          (strip (get_text e),
           if dict_has mt0 (strip (get_text e)) then mt0
           else mt0 @ [(strip (get_text e), [])]))"
proof (intro conjI impI)
  from extract_main_text_keys [of soup] obtain mt where
    r: "extract_main_text soup = Inr mt"
    and k: "map fst mt =
            rev (remdups (rev (''Main Content'' #
              map (\<lambda>h. strip (get_text h)) (filter is_heading (descendants soup)))))"
    by blast
  from extract_main_text_total [of soup] r obtain c where "main_text_inv (c, mt)" by auto
  then have "dict_has mt ''Main Content''" and "distinct (map fst mt)"
    by (simp_all add: main_text_inv_def)
  with r k
  show "\<exists>mt. extract_main_text soup = Inr mt \<and> dict_has mt ''Main Content'' \<and>
          distinct (map fst mt) \<and>
          map fst mt =
            rev (remdups (rev (''Main Content'' #
              map (\<lambda>h. strip (get_text h)) (filter is_heading (descendants soup)))))"
    by blast
next
  show "extract_main_text (Tag name attrs []) = Inr [(''Main Content'', [])]"
    by (simp add: extract_main_text_def find_all_def)
next
  assume "node_name e \<in> Some ` set [''h1'', ''h2'', ''h3'']"
  from main_text_loop_heading [OF this]
  show "main_text_loop (e # rest) (cs, mt0) =
        main_text_loop rest
          (strip (get_text e),
           if dict_has mt0 (strip (get_text e)) then mt0
           else mt0 @ [(strip (get_text e), [])])"
    by (simp add: dict_set_new)
qed

theorem main_content_section_exists_witness:
  "node_name (Tag ''h2'' [] [Text NavigableString ''Plans'']) \<in> Some ` set [''h1'', ''h2'', ''h3''] \<and>
   main_text_loop [Tag ''h2'' [] [Text NavigableString ''Plans'']] (''Main Content'', [(''Main Content'', [''x''])])
     = Inr (''Plans'', [(''Main Content'', [''x'']), (''Plans'', [])]) \<and>
   node_name (Tag ''h1'' [] [Text NavigableString '' Main Content '']) \<in> Some ` set [''h1'', ''h2'', ''h3''] \<and>
   main_text_loop [Tag ''h1'' [] [Text NavigableString '' Main Content '']]
       (''Plans'', [(''Main Content'', [''x'']), (''Plans'', [])])
     = Inr (''Main Content'', [(''Main Content'', [''x'']), (''Plans'', [])]) \<and>
   extract_main_text sections_page
     = Inr [(''Main Content'', [''intro'', ''more'']), (''Plans'', [''basic'', ''pro''])] \<and>
   rev (remdups (rev (''Main Content'' #
     map (\<lambda>h. strip (get_text h)) (filter is_heading (descendants sections_page)))))
     = [''Main Content'', ''Plans'']"
proof -
  have h1: "node_name (Tag ''h2'' [] [Text NavigableString ''Plans'']) \<in> Some ` set [''h1'', ''h2'', ''h3'']"
    and h2: "node_name (Tag ''h1'' [] [Text NavigableString '' Main Content '']) \<in> Some ` set [''h1'', ''h2'', ''h3'']"
    by simp_all
  have t1: "strip (get_text (Tag ''h2'' [] [Text NavigableString ''Plans''])) = ''Plans''"
    and t2: "strip (get_text (Tag ''h1'' [] [Text NavigableString '' Main Content ''])) = ''Main Content''"
    by code_simp+
  from main_content_section_exists
    [of example_page "''[document]''" "[]" "Tag ''h2'' [] [Text NavigableString ''Plans'']" "[]" "''Main Content''"
        "[(''Main Content'', [''x''])]"] h1
  have r1: "main_text_loop [Tag ''h2'' [] [Text NavigableString ''Plans'']]
              (''Main Content'', [(''Main Content'', [''x''])])
     = Inr (''Plans'', [(''Main Content'', [''x'']), (''Plans'', [])])"
    unfolding t1 by (simp add: dict_has_def)
  from main_content_section_exists
    [of example_page "''[document]''" "[]" "Tag ''h1'' [] [Text NavigableString '' Main Content '']" "[]" "''Plans''"
        "[(''Main Content'', [''x'']), (''Plans'', [])]"] h2
  have r2: "main_text_loop [Tag ''h1'' [] [Text NavigableString '' Main Content '']]
       (''Plans'', [(''Main Content'', [''x'']), (''Plans'', [])])
     = Inr (''Main Content'', [(''Main Content'', [''x'']), (''Plans'', [])])"
    unfolding t2 by (simp add: dict_has_def)
  have ev: "extract_main_text sections_page
     = Inr [(''Main Content'', [''intro'', ''more'']), (''Plans'', [''basic'', ''pro''])]"
    by code_simp
  from main_content_section_exists
    [of sections_page "''[document]''" "[]" "Tag ''h2'' [] [Text NavigableString ''Plans'']" "[]"
        "''Main Content''" "[(''Main Content'', [''x''])]"]
  obtain mt where "extract_main_text sections_page = Inr mt"
    and "map fst mt = rev (remdups (rev (''Main Content'' #
     map (\<lambda>h. strip (get_text h)) (filter is_heading (descendants sections_page)))))"
    by blast
  with ev have r3: "rev (remdups (rev (''Main Content'' #
     map (\<lambda>h. strip (get_text h)) (filter is_heading (descendants sections_page)))))
     = [''Main Content'', ''Plans'']"
    by auto
  from h1 r1 h2 r2 ev r3 show ?thesis by (intro conjI)
qed

text \<open>
  Claim C5, as the specification states it, fails: two nested containers with the same
  text need not leave exactly one entry for it. In the first document a \<open>div\<close> and the
  \<open>p\<close> inside it both yield \<open>"a"\<close>, which two earlier paragraphs of the section contain:
  the section has no entry \<open>"a"\<close>, and two entries that contain it. In the second both
  containers yield the empty text, and the section has no entry at all.
\<close>

theorem section_dedup_counterexample:
  "join '' '' (stripped_strings (Tag ''div'' [] [Tag ''p'' [] [Text NavigableString ''a'']])) = ''a'' \<and>
   join '' '' (stripped_strings (Tag ''p'' [] [Text NavigableString ''a''])) = ''a'' \<and>
   extract_main_text
     (Tag ''[document]'' []
        [Tag ''p'' [] [Text NavigableString ''ab''], Tag ''p'' [] [Text NavigableString ''ac''],
         Tag ''div'' [] [Tag ''p'' [] [Text NavigableString ''a'']]])
     = Inr [(''Main Content'', [''ab'', ''ac''])] \<and>
   count_list [''ab'', ''ac''] ''a'' = 0 \<and>
   length (filter (str_in ''a'') [''ab'', ''ac'']) = 2 \<and>
   join '' '' (stripped_strings (Tag ''div'' [] [Tag ''p'' [] []])) = [] \<and>
   join '' '' (stripped_strings (Tag ''p'' [] [])) = [] \<and>
   extract_main_text (Tag ''[document]'' [] [Tag ''div'' [] [Tag ''p'' [] []]])
     = Inr [(''Main Content'', [])]"
  by code_simp

lemma nested_containers_once:
  assumes "strip t \<noteq> []"
  shows "extract_main_text (Tag d a [Tag ''div'' a1 [Tag ''p'' a2 [Text NavigableString t]]])
           = Inr [(''Main Content'', [strip t])]"
proof -
  have fa: "find_all [''h1'', ''h2'', ''h3'', ''p'', ''div'']
              (Tag d a [Tag ''div'' a1 [Tag ''p'' a2 [Text NavigableString t]]])
            = [Tag ''div'' a1 [Tag ''p'' a2 [Text NavigableString t]], Tag ''p'' a2 [Text NavigableString t]]"
    by (simp add: find_all_def)
  have s1: "join '' '' (stripped_strings (Tag ''div'' a1 [Tag ''p'' a2 [Text NavigableString t]])) = strip t"
    and s2: "join '' '' (stripped_strings (Tag ''p'' a2 [Text NavigableString t])) = strip t"
    using assms by (simp_all add: stripped_strings_def)
  have g1: "dict_get [(''Main Content'', [])] ''Main Content'' = Inr []"
    and g2: "dict_get [(''Main Content'', [strip t])] ''Main Content'' = Inr [strip t]"
    by (simp_all add: dict_get_def)
  have c1: "node_name (Tag ''div'' a1 [Tag ''p'' a2 [Text NavigableString t]]) \<in> Some ` set [''p'', ''div'']"
    and c2: "node_name (Tag ''p'' a2 [Text NavigableString t]) \<in> Some ` set [''p'', ''div'']"
    by simp_all
  show ?thesis
    unfolding extract_main_text_def fa
    using assms
    by (simp add: main_text_loop_container [OF c1 g1] main_text_loop_container [OF c2 g2]
          s1 s2 str_in_refl del: main_text_loop.simps(2))
qed

lemma section_entry_for_container:
  assumes fa: "find_all [''h1'', ''h2'', ''h3'', ''p'', ''div''] soup = pre @ e # post"
    and c: "node_name e \<in> Some ` set [''p'', ''div'']"
    and ne: "join '' '' (stripped_strings e) \<noteq> []"
    and pre: "main_text_loop pre (''Main Content'', dict_set [] ''Main Content'' []) = Inr (k, mt1)"
  shows "\<exists>mt ps x. extract_main_text soup = Inr mt \<and> map_of mt k = Some ps \<and>
           x \<in> set ps \<and> str_in (join '' '' (stripped_strings e)) x"
proof -
  let ?t = "join '' '' (stripped_strings e)"
  let ?init = "(''Main Content'', dict_set [] ''Main Content'' [])"
  from main_text_loop_total [OF main_text_init_inv, of pre] pre
  have inv1: "main_text_inv (k, mt1)" by auto
  then have "dict_has mt1 k" by (simp add: main_text_inv_def)
  from dict_get_has [OF this] obtain ps1 where g: "dict_get mt1 k = Inr ps1" by blast
  then have m1: "map_of mt1 k = Some ps1" by (simp add: dict_get_Inr)
  let ?new = "?t \<noteq> [] \<and> \<not> list_ex (\<lambda>existing. str_in ?t existing) ps1"
  let ?mt2 = "if ?new then dict_set mt1 k (ps1 @ [?t]) else mt1"
  have step: "main_text_loop (e # post) (k, mt1) = main_text_loop post (k, ?mt2)"
    by (rule main_text_loop_container [OF c g])
  from main_text_step [OF inv1, of e] step have inv2: "main_text_inv (k, ?mt2)"
    using main_text_loop_container [OF c g, of "[]"] by auto
  have "\<exists>ps2 x. map_of ?mt2 k = Some ps2 \<and> x \<in> set ps2 \<and> str_in ?t x"
  proof (cases ?new)
    case True
    then have "map_of ?mt2 k = Some (ps1 @ [?t])" by (simp add: map_of_dict_set)
    moreover have "?t \<in> set (ps1 @ [?t])" by simp
    ultimately show ?thesis using str_in_refl [of ?t] by blast
  next
    case False
    with ne obtain x where "x \<in> set ps1" "str_in ?t x" by (auto simp: list_ex_iff)
    with False m1 show ?thesis by auto
  qed
  then obtain ps2 x where m2: "map_of ?mt2 k = Some ps2" and x: "x \<in> set ps2" "str_in ?t x"
    by blast
  from main_text_loop_total [OF inv2, of post] obtain st' where
    r: "main_text_loop post (k, ?mt2) = Inr st'" and g2: "main_text_grows ?mt2 (snd st')"
    by auto
  from g2 m2 obtain more where m3: "map_of (snd st') k = Some (ps2 @ more)"
    unfolding main_text_grows_def by blast
  have "main_text_loop (pre @ e # post) ?init = Inr st'"
    by (simp only: main_text_loop_append pre sum.case step r)
  then have "extract_main_text soup = Inr (snd st')"
    by (cases st') (simp add: extract_main_text_def fa)
  with m3 x show ?thesis by auto
qed

lemma section_step:
  assumes "node_name e \<in> Some ` set [''p'', ''div'']" and "dict_get mt0 cs = Inr ps0"
  shows "main_text_loop (e # rest) (cs, mt0) =
        main_text_loop rest
          (cs,
           if join '' '' (stripped_strings e) \<noteq> [] \<and>
              \<not> (\<exists>existing\<in>set ps0. str_in (join '' '' (stripped_strings e)) existing)
           then dict_set mt0 cs (ps0 @ [join '' '' (stripped_strings e)])
           else mt0)"
  unfolding main_text_loop_container [OF assms] list_ex_iff ..

lemma section_lists_deduped:
  "\<exists>mt. extract_main_text soup = Inr mt \<and>
      (\<forall>(k, ps)\<in>set mt. deduped ps \<and> distinct ps \<and> [] \<notin> set ps \<and> count_list ps t \<le> 1)"
proof -
  from extract_main_text_total [of soup] obtain c mt where
    r: "extract_main_text soup = Inr mt" and inv: "main_text_inv (c, mt)" by blast
  have "deduped ps \<and> distinct ps \<and> [] \<notin> set ps \<and> count_list ps t \<le> 1"
    if "(k, ps) \<in> set mt" for k ps
  proof -
    from inv that have d: "deduped ps" by (auto simp: main_text_inv_def list_all_iff)
    from deduped_distinct [OF d] have "distinct ps" and "[] \<notin> set ps" by simp_all
    with d distinct_count_le_1 [of ps t] show ?thesis by simp
  qed
  then have "\<forall>(k, ps)\<in>set mt. deduped ps \<and> distinct ps \<and> [] \<notin> set ps \<and> count_list ps t \<le> 1"
    by fast
  with r show ?thesis by (intro exI conjI)
qed

lemma section_entry_once:
  assumes fa: "find_all [''h1'', ''h2'', ''h3'', ''p'', ''div''] soup = pre @ e # post"
    and c: "node_name e \<in> Some ` set [''p'', ''div'']"
    and ne: "join '' '' (stripped_strings e) \<noteq> []"
    and pre: "main_text_loop pre (''Main Content'', dict_set [] ''Main Content'' []) = Inr (k, mt1)"
  shows "\<exists>mt ps x. extract_main_text soup = Inr mt \<and> map_of mt k = Some ps \<and>
           x \<in> set ps \<and> str_in (join '' '' (stripped_strings e)) x \<and>
           count_list ps (join '' '' (stripped_strings e)) \<le> 1"
proof -
  from section_entry_for_container [OF fa c ne pre]
  obtain mt ps x where r: "extract_main_text soup = Inr mt" and m: "map_of mt k = Some ps"
    and x: "x \<in> set ps" "str_in (join '' '' (stripped_strings e)) x"
    by blast
  from extract_main_text_total [of soup] r obtain c where inv: "main_text_inv (c, mt)" by auto
  from m have "(k, ps) \<in> set mt" by (rule map_of_SomeD)
  with inv have "deduped ps" by (auto simp: main_text_inv_def list_all_iff)
  then have "distinct ps" using deduped_distinct by blast
  then have "count_list ps (join '' '' (stripped_strings e)) \<le> 1"
    by (rule distinct_count_le_1)
  with r m x show ?thesis by (intro exI conjI)
qed

text \<open>
  Claim C5, amended. The text of a paragraph or container is appended to the list of the
  current section exactly when it is not empty and no entry of that list contains it. So
  in every list of the result no entry is empty and no entry is a substring of an entry
  before it, and any text is an entry at most once. A container with a non-empty text,
  scanned in section \<open>k\<close>, leaves in the list of \<open>k\<close> an entry that contains its text; and
  a \<open>div\<close> around a \<open>p\<close> with the same non-empty text, alone in a document, leave that text
  once.
\<close>

theorem section_dedup:
  "(node_name e \<in> Some ` set [''p'', ''div''] \<and> dict_get mt0 cs = Inr ps0 \<longrightarrow>
      main_text_loop (e # rest) (cs, mt0) =
        main_text_loop rest
          (cs,
           if join '' '' (stripped_strings e) \<noteq> [] \<and>
              \<not> (\<exists>existing\<in>set ps0. str_in (join '' '' (stripped_strings e)) existing)
           then dict_set mt0 cs (ps0 @ [join '' '' (stripped_strings e)])
           else mt0)) \<and>
   (\<exists>mt. extract_main_text soup = Inr mt \<and>
      (\<forall>(k, ps)\<in>set mt. deduped ps \<and> distinct ps \<and> [] \<notin> set ps \<and> count_list ps t \<le> 1)) \<and>
   (find_all [''h1'', ''h2'', ''h3'', ''p'', ''div''] soup = pre @ e # post \<and>
    node_name e \<in> Some ` set [''p'', ''div''] \<and> join '' '' (stripped_strings e) \<noteq> [] \<and>
    main_text_loop pre (''Main Content'', dict_set [] ''Main Content'' []) = Inr (k, mt1) \<longrightarrow>
      (\<exists>mt ps x. extract_main_text soup = Inr mt \<and> map_of mt k = Some ps \<and>
         x \<in> set ps \<and> str_in (join '' '' (stripped_strings e)) x \<and>
         count_list ps (join '' '' (stripped_strings e)) \<le> 1)) \<and>
   (strip u \<noteq> [] \<longrightarrow>
      extract_main_text (Tag d a [Tag ''div'' a1 [Tag ''p'' a2 [Text NavigableString u]]])
        = Inr [(''Main Content'', [strip u])])"
proof (intro conjI impI; (elim conjE)?)
  assume "node_name e \<in> Some ` set [''p'', ''div'']" and "dict_get mt0 cs = Inr ps0"
  then show "main_text_loop (e # rest) (cs, mt0) =
        main_text_loop rest
          (cs,
           if join '' '' (stripped_strings e) \<noteq> [] \<and>
              \<not> (\<exists>existing\<in>set ps0. str_in (join '' '' (stripped_strings e)) existing)
           then dict_set mt0 cs (ps0 @ [join '' '' (stripped_strings e)])
           else mt0)"
    by (rule section_step)
next
  show "\<exists>mt. extract_main_text soup = Inr mt \<and>
      (\<forall>(k, ps)\<in>set mt. deduped ps \<and> distinct ps \<and> [] \<notin> set ps \<and> count_list ps t \<le> 1)"
    by (rule section_lists_deduped)
next
  assume "find_all [''h1'', ''h2'', ''h3'', ''p'', ''div''] soup = pre @ e # post"
    and "node_name e \<in> Some ` set [''p'', ''div'']"
    and "join '' '' (stripped_strings e) \<noteq> []"
    and "main_text_loop pre (''Main Content'', dict_set [] ''Main Content'' []) = Inr (k, mt1)"
  then show "\<exists>mt ps x. extract_main_text soup = Inr mt \<and> map_of mt k = Some ps \<and>
         x \<in> set ps \<and> str_in (join '' '' (stripped_strings e)) x \<and>
         count_list ps (join '' '' (stripped_strings e)) \<le> 1"
    by (rule section_entry_once)
next
  assume "strip u \<noteq> []"
  then show "extract_main_text (Tag d a [Tag ''div'' a1 [Tag ''p'' a2 [Text NavigableString u]]])
        = Inr [(''Main Content'', [strip u])]"
    by (rule nested_containers_once)
qed

theorem section_dedup_witness:
  "node_name (Tag ''p'' [] [Text NavigableString ''a'']) \<in> Some ` set [''p'', ''div''] \<and>
   dict_get [(''Main Content'', [''ab''])] ''Main Content'' = Inr [''ab''] \<and>
   main_text_loop [Tag ''p'' [] [Text NavigableString ''a'']] (''Main Content'', [(''Main Content'', [''ab''])])
     = Inr (''Main Content'', [(''Main Content'', [''ab''])]) \<and>
   find_all [''h1'', ''h2'', ''h3'', ''p'', ''div'']
     (Tag ''[document]'' []
        [Tag ''p'' [] [Text NavigableString ''ab''], Tag ''div'' [] [Tag ''p'' [] [Text NavigableString ''a'']]])
     = [Tag ''p'' [] [Text NavigableString ''ab'']] @ Tag ''div'' [] [Tag ''p'' [] [Text NavigableString ''a'']]
         # [Tag ''p'' [] [Text NavigableString ''a'']] \<and>
   node_name (Tag ''div'' [] [Tag ''p'' [] [Text NavigableString ''a'']]) \<in> Some ` set [''p'', ''div''] \<and>
   join '' '' (stripped_strings (Tag ''div'' [] [Tag ''p'' [] [Text NavigableString ''a'']])) = ''a'' \<and>
   main_text_loop [Tag ''p'' [] [Text NavigableString ''ab'']] (''Main Content'', dict_set [] ''Main Content'' [])
     = Inr (''Main Content'', [(''Main Content'', [''ab''])]) \<and>
   extract_main_text
     (Tag ''[document]'' []
        [Tag ''p'' [] [Text NavigableString ''ab''], Tag ''div'' [] [Tag ''p'' [] [Text NavigableString ''a'']]])
     = Inr [(''Main Content'', [''ab''])] \<and>
   count_list [''ab''] ''a'' \<le> 1 \<and>
   strip '' hello '' = ''hello'' \<and>
   extract_main_text
     (Tag ''[document]'' [] [Tag ''div'' [] [Tag ''p'' [] [Text NavigableString '' hello '']]])
     = Inr [(''Main Content'', [''hello''])]"
proof -
  let ?p = "Tag ''p'' [] [Text NavigableString ''a'']"
  let ?q = "Tag ''p'' [] [Text NavigableString ''ab'']"
  let ?d = "Tag ''div'' [] [?p]"
  let ?soup = "Tag ''[document]'' [] [?q, ?d]"
  let ?mt = "[(''Main Content'', [''ab''])]"
  note A = section_dedup [of ?p ?mt "''Main Content''" "[''ab'']" "[]" ?soup "''a''" "[?q]" "[?p]"
      "''Main Content''" ?mt "'' hello ''" "''[document]''" "[]" "[]" "[]"]
  note B = section_dedup [of ?d ?mt "''Main Content''" "[''ab'']" "[]" ?soup "''a''" "[?q]" "[?p]"
      "''Main Content''" ?mt "'' hello ''" "''[document]''" "[]" "[]" "[]"]
  have h1: "node_name ?p \<in> Some ` set [''p'', ''div'']"
    and h2: "dict_get ?mt ''Main Content'' = Inr [''ab'']"
    and h4: "node_name ?d \<in> Some ` set [''p'', ''div'']"
    by (simp_all add: dict_get_def)
  have tp: "join '' '' (stripped_strings ?p) = ''a''"
    and h5: "join '' '' (stripped_strings ?d) = ''a''"
    and s: "strip '' hello '' = ''hello''"
    and h3: "find_all [''h1'', ''h2'', ''h3'', ''p'', ''div''] ?soup = [?q] @ ?d # [?p]"
    and h6: "main_text_loop [?q] (''Main Content'', dict_set [] ''Main Content'' []) = Inr (''Main Content'', ?mt)"
    and ex: "extract_main_text ?soup = Inr ?mt"
    by code_simp+
  from A h1 h2 have
    "main_text_loop [?p] (''Main Content'', ?mt) =
       main_text_loop []
         (''Main Content'',
          if join '' '' (stripped_strings ?p) \<noteq> [] \<and>
             \<not> (\<exists>existing\<in>set [''ab'']. str_in (join '' '' (stripped_strings ?p)) existing)
          then dict_set ?mt ''Main Content'' ([''ab''] @ [join '' '' (stripped_strings ?p)])
          else ?mt)"
    by blast
  then have r1: "main_text_loop [?p] (''Main Content'', ?mt) = Inr (''Main Content'', ?mt)"
    unfolding tp by simp
  from h5 have ne: "join '' '' (stripped_strings ?d) \<noteq> []" by simp
  from B h3 h4 ne h6 have
    "\<exists>mt ps x. extract_main_text ?soup = Inr mt \<and> map_of mt ''Main Content'' = Some ps \<and>
         x \<in> set ps \<and> str_in (join '' '' (stripped_strings ?d)) x \<and>
         count_list ps (join '' '' (stripped_strings ?d)) \<le> 1"
    by blast
  then have r3: "count_list [''ab''] ''a'' \<le> 1"
    unfolding ex h5 by auto
  from s have "strip '' hello '' \<noteq> []" by simp
  with A have "extract_main_text (Tag ''[document]'' [] [Tag ''div'' [] [Tag ''p'' [] [Text NavigableString '' hello '']]])
     = Inr [(''Main Content'', [strip '' hello ''])]"
    by blast
  then have r4: "extract_main_text (Tag ''[document]'' [] [Tag ''div'' [] [Tag ''p'' [] [Text NavigableString '' hello '']]])
     = Inr [(''Main Content'', [''hello''])]"
    unfolding s .
  from h1 h2 r1 h3 h4 h5 h6 ex r3 s r4 show ?thesis by (intro conjI)
qed

section \<open>The element locator\<close>

lemma strip_prefix_append: "strip_prefix p (p @ r) = Some r"
  by (induction p) simp_all

lemma take_literal_append: "CHR 0x27 \<notin> set l \<Longrightarrow> take_literal (l @ CHR 0x27 # r) = Some (l, r)"
  by (induction l) auto

lemma lower_char_apostrophe: "c \<noteq> CHR 0x27 \<Longrightarrow> lower_char c \<noteq> CHR 0x27"
proof (cases "isupper c")
  case False
  assume "c \<noteq> CHR 0x27"
  with False show ?thesis by (simp add: lower_char_def)
next
  case True
  define n where "n = (of_char c :: nat)"
  from True have n: "(65 \<le> n \<and> n \<le> 90) \<or> (192 \<le> n \<and> n \<le> 222 \<and> n \<noteq> 215)"
    by (simp add: isupper_def n_def Let_def)
  then have "(n + 32) mod 256 = n + 32" by auto
  then have o: "(of_char (char_of (n + 32)) :: nat) = n + 32" by simp
  have "char_of (n + 32) \<noteq> CHR 0x27"
  proof
    assume "char_of (n + 32) = CHR 0x27"
    then have "(of_char (char_of (n + 32)) :: nat) = of_char (CHR 0x27)" by simp
    with o have "n + 32 = 39" by simp
    with n show False by auto
  qed
  with True show ?thesis by (simp add: lower_char_def n_def)
qed

lemma lower_apostrophe:
  assumes "CHR 0x27 \<notin> set t"
  shows "CHR 0x27 \<notin> set (lower t)"
proof
  assume "CHR 0x27 \<in> set (lower t)"
  then obtain c where c: "c \<in> set t" and l: "lower_char c = CHR 0x27"
    unfolding lower_def by (metis (no_types) imageE list.set_map)
  from c assms have "c \<noteq> CHR 0x27" by blast
  from lower_char_apostrophe [OF this] l show False by blast
qed

lemma parse_attribute_xpath_ok:
  assumes "CHR 0x27 \<notin> set t"
  shows "parse_attribute_xpath (attribute_xpath t) = Some (t, t, t)"
proof -
  have e: "attribute_xpath t =
      (''//*[@aria-label='' @ apostrophe) @ t @ CHR 0x27 #
      ('' or @title='' @ apostrophe) @ t @ CHR 0x27 #
      ('' or @alt='' @ apostrophe) @ t @ CHR 0x27 # '']''"
    by (simp add: attribute_xpath_def apostrophe_def)
  show ?thesis
    unfolding parse_attribute_xpath_def e
    by (simp only: strip_prefix_append take_literal_append [OF assms] option.case prod.case)
      simp
qed

lemma parse_text_xpath_ok:
  assumes "CHR 0x27 \<notin> set t"
  shows "parse_text_xpath (text_xpath t) = Some (lower t, lower t)"
proof -
  have e: "text_xpath t =
      (''//*[translate(text(), '' @ apostrophe @ ''ABCDEFGHIJKLMNOPQRSTUVWXYZ'' @
              apostrophe @ '', '' @ apostrophe @ ''abcdefghijklmnopqrstuvwxyz'' @ apostrophe @
              '')='' @ apostrophe) @ lower t @ CHR 0x27 #
      ('' or contains(translate(text(), '' @ apostrophe @
              ''ABCDEFGHIJKLMNOPQRSTUVWXYZ'' @ apostrophe @ '', '' @ apostrophe @
              ''abcdefghijklmnopqrstuvwxyz'' @ apostrophe @ ''), '' @ apostrophe) @
      lower t @ CHR 0x27 # '')]''"
    by (simp add: text_xpath_def apostrophe_def)
  show ?thesis
    unfolding parse_text_xpath_def e
    by (simp only: strip_prefix_append take_literal_append [OF lower_apostrophe [OF assms]]
          option.case prod.case)
      simp
qed

lemma parse_text_xpath_attribute: "parse_text_xpath (attribute_xpath t) = None"
proof -
  have a: "attribute_xpath t = CHR ''/'' # CHR ''/'' # CHR ''*'' # CHR ''['' # CHR ''@'' #
     (''aria-label='' @ apostrophe @ t @ apostrophe @
     '' or @title='' @ apostrophe @ t @ apostrophe @
     '' or @alt='' @ apostrophe @ t @ apostrophe @ '']'')"
    by (simp add: attribute_xpath_def)
  show ?thesis
    unfolding parse_text_xpath_def a by simp
qed

lemma until_clickable_first:
  "find_element pg how query = find P (page_elements pg) \<Longrightarrow>
     until_clickable pg how query = clickable_first pg P"
  by (simp add: until_clickable_def clickable_first_def)

lemma until_clickable_link_text:
  "until_clickable pg LINK_TEXT t =
     clickable_first pg (\<lambda>(i, e). node_name e = Some ''a'' \<and> rendered_text pg i = t)"
  by (rule until_clickable_first) (simp add: find_element_def)

lemma until_clickable_partial_link_text:
  "until_clickable pg PARTIAL_LINK_TEXT t =
     clickable_first pg (\<lambda>(i, e). node_name e = Some ''a'' \<and> str_in t (rendered_text pg i))"
  by (rule until_clickable_first) (simp add: find_element_def)

lemma until_clickable_text:
  assumes "CHR 0x27 \<notin> set t"
  shows "until_clickable pg XPATH (text_xpath t) =
     clickable_first pg (\<lambda>(i, e). str_in (lower t) (translate_upper (first_text e)))"
proof (rule until_clickable_first)
  have "(\<lambda>(i::nat, e). translate_upper (first_text e) = lower t \<or>
                  str_in (lower t) (translate_upper (first_text e)))
        = (\<lambda>(i, e). str_in (lower t) (translate_upper (first_text e)))"
    using str_in_refl by (auto simp: fun_eq_iff)
  then show "find_element pg XPATH (text_xpath t) =
      find (\<lambda>(i, e). str_in (lower t) (translate_upper (first_text e))) (page_elements pg)"
    by (simp add: find_element_def parse_text_xpath_ok [OF assms])
qed

lemma until_clickable_attribute:
  assumes "CHR 0x27 \<notin> set t"
  shows "until_clickable pg XPATH (attribute_xpath t) =
     clickable_first pg
       (\<lambda>(i, e). attribute e ''aria-label'' = Some t \<or> attribute e ''title'' = Some t \<or>
                  attribute e ''alt'' = Some t)"
  by (rule until_clickable_first)
    (simp add: find_element_def parse_text_xpath_attribute parse_attribute_xpath_ok [OF assms])

lemma find_and_click_element_cascade:
  "fst (find_and_click_element wait t) =
     (case find (\<lambda>(how, query). wait how query \<noteq> None) (locator_stages t) of
        None \<Rightarrow> None
      | Some (how, query) \<Rightarrow> wait how query) \<and>
   snd (find_and_click_element wait t) =
     take (Suc (length (takeWhile (\<lambda>(how, query). wait how query = None) (locator_stages t))))
       (locator_stages t)"
  by (auto simp: find_and_click_element_def locator_stages_def split: option.splits)

lemma find_and_click_element_none:
  "\<forall>(how, query)\<in>set (locator_stages t). wait how query = None \<Longrightarrow>
     find_and_click_element wait t = (None, locator_stages t)"
  by (auto simp: find_and_click_element_def locator_stages_def split: option.splits)

lemma find_and_click_element_stage4:
  "wait LINK_TEXT t = None \<Longrightarrow> wait PARTIAL_LINK_TEXT t = None \<Longrightarrow>
   wait XPATH (text_xpath t) = None \<Longrightarrow> wait XPATH (attribute_xpath t) = Some element \<Longrightarrow>
     find_and_click_element wait t = (Some element, locator_stages t)"
  by (simp add: find_and_click_element_def locator_stages_def)

text \<open>With an apostrophe in the target the attribute expression is none of the two
  shapes, and what the wait gives is what the browser's XPath engine makes of it.\<close>

lemma find_element_apostrophe:
  "find_element pg XPATH (attribute_xpath (''What'' @ apostrophe @ ''s new''))
     = other_xpath pg (attribute_xpath (''What'' @ apostrophe @ ''s new''))"
proof -
  have "parse_text_xpath (attribute_xpath (''What'' @ apostrophe @ ''s new'')) = None"
    by (rule parse_text_xpath_attribute)
  moreover have "parse_attribute_xpath (attribute_xpath (''What'' @ apostrophe @ ''s new'')) = None"
    by code_simp
  ultimately show ?thesis by (simp add: find_element_def)
qed

text \<open>
  Claim C4, as the specification states it, fails: a stage succeeds only if the first
  element that its locator selects is displayed and enabled. On a page whose only
  element has the label \<open>Menu\<close> and is hidden, the first three stages fail, an
  \<open>aria-label\<close> matches the target, and the locator returns \<open>None\<close>.
\<close>

theorem locator_hidden_element_counterexample:
  "page_elements hidden_menu_page = [(0, Tag ''div'' [(''aria-label'', ''Menu'')] [])] \<and>
   attribute (Tag ''div'' [(''aria-label'', ''Menu'')] []) ''aria-label'' = Some ''Menu'' \<and>
   until_clickable hidden_menu_page LINK_TEXT ''Menu'' = None \<and>
   until_clickable hidden_menu_page PARTIAL_LINK_TEXT ''Menu'' = None \<and>
   until_clickable hidden_menu_page XPATH (text_xpath ''Menu'') = None \<and>
   find_and_click_element (until_clickable hidden_menu_page) ''Menu''
     = (None, locator_stages ''Menu'')"
  by code_simp

text \<open>
  Claim C4, amended. The locator makes its waits in the order exact link text, partial
  link text, text expression, attribute expression; its result is the element of the
  first wait that gives one, no later wait is made, and when every wait fails the result
  is \<open>None\<close>: a failing wait is never an error. On a page that does not change, a wait
  gives the first element in document order that its locator selects, if that element is
  displayed and enabled. The link-text waits select the links whose rendered text is the
  target, or contains it. For a target without an apostrophe, the text expression
  selects the elements whose first text node, with \<open>A\<close> to \<open>Z\<close> in lower case, contains the
  target in lower case, and the attribute expression selects the elements whose
  \<open>aria-label\<close>, \<open>title\<close> or \<open>alt\<close> is the target; so if the first three waits fail and
  the first element with such an attribute is displayed and enabled, the locator returns
  it.
\<close>

theorem locator_cascade:
  "fst (find_and_click_element wait t) =
     (case find (\<lambda>(how, query). wait how query \<noteq> None) (locator_stages t) of
        None \<Rightarrow> None
      | Some (how, query) \<Rightarrow> wait how query) \<and>
   snd (find_and_click_element wait t) =
     take (Suc (length (takeWhile (\<lambda>(how, query). wait how query = None) (locator_stages t))))
       (locator_stages t) \<and>
   locator_stages t =
     [(LINK_TEXT, t), (PARTIAL_LINK_TEXT, t), (XPATH, text_xpath t),
      (XPATH, attribute_xpath t)] \<and>
   ((\<forall>(how, query)\<in>set (locator_stages t). wait how query = None) \<longrightarrow>
      find_and_click_element wait t = (None, locator_stages t)) \<and>
   until_clickable pg LINK_TEXT t =
     clickable_first pg (\<lambda>(i, e). node_name e = Some ''a'' \<and> rendered_text pg i = t) \<and>
   until_clickable pg PARTIAL_LINK_TEXT t =
     clickable_first pg (\<lambda>(i, e). node_name e = Some ''a'' \<and> str_in t (rendered_text pg i)) \<and>
   (CHR 0x27 \<notin> set t \<longrightarrow>
      until_clickable pg XPATH (text_xpath t) =
        clickable_first pg (\<lambda>(i, e). str_in (lower t) (translate_upper (first_text e))) \<and>
      until_clickable pg XPATH (attribute_xpath t) =
        clickable_first pg
          (\<lambda>(i, e). attribute e ''aria-label'' = Some t \<or> attribute e ''title'' = Some t \<or>
                     attribute e ''alt'' = Some t) \<and>
      (until_clickable pg LINK_TEXT t = None \<and>
       until_clickable pg PARTIAL_LINK_TEXT t = None \<and>
       until_clickable pg XPATH (text_xpath t) = None \<and>
       find (\<lambda>(i, e). attribute e ''aria-label'' = Some t \<or> attribute e ''title'' = Some t \<or>
                       attribute e ''alt'' = Some t) (page_elements pg) = Some (n, element) \<and>
       is_clickable pg n \<longrightarrow>
         find_and_click_element (until_clickable pg) t = (Some (n, element), locator_stages t)))"
proof (intro conjI impI; (elim conjE)?)
  show "fst (find_and_click_element wait t) =
     (case find (\<lambda>(how, query). wait how query \<noteq> None) (locator_stages t) of
        None \<Rightarrow> None
      | Some (how, query) \<Rightarrow> wait how query)"
    using find_and_click_element_cascade [of wait t] by (rule conjunct1)
next
  show "snd (find_and_click_element wait t) =
     take (Suc (length (takeWhile (\<lambda>(how, query). wait how query = None) (locator_stages t))))
       (locator_stages t)"
    using find_and_click_element_cascade [of wait t] by (rule conjunct2)
next
  show "locator_stages t =
     [(LINK_TEXT, t), (PARTIAL_LINK_TEXT, t), (XPATH, text_xpath t),
      (XPATH, attribute_xpath t)]"
    by (simp add: locator_stages_def)
next
  assume "\<forall>(how, query)\<in>set (locator_stages t). wait how query = None"
  then show "find_and_click_element wait t = (None, locator_stages t)"
    by (rule find_and_click_element_none)
next
  show "until_clickable pg LINK_TEXT t =
     clickable_first pg (\<lambda>(i, e). node_name e = Some ''a'' \<and> rendered_text pg i = t)"
    by (rule until_clickable_link_text)
next
  show "until_clickable pg PARTIAL_LINK_TEXT t =
     clickable_first pg (\<lambda>(i, e). node_name e = Some ''a'' \<and> str_in t (rendered_text pg i))"
    by (rule until_clickable_partial_link_text)
next
  assume "CHR 0x27 \<notin> set t"
  then show "until_clickable pg XPATH (text_xpath t) =
        clickable_first pg (\<lambda>(i, e). str_in (lower t) (translate_upper (first_text e)))"
    by (rule until_clickable_text)
next
  assume "CHR 0x27 \<notin> set t"
  then show "until_clickable pg XPATH (attribute_xpath t) =
        clickable_first pg
          (\<lambda>(i, e). attribute e ''aria-label'' = Some t \<or> attribute e ''title'' = Some t \<or>
                     attribute e ''alt'' = Some t)"
    by (rule until_clickable_attribute)
next
  assume a: "CHR 0x27 \<notin> set t"
    and s1: "until_clickable pg LINK_TEXT t = None"
    and s2: "until_clickable pg PARTIAL_LINK_TEXT t = None"
    and s3: "until_clickable pg XPATH (text_xpath t) = None"
    and f: "find (\<lambda>(i, e). attribute e ''aria-label'' = Some t \<or> attribute e ''title'' = Some t \<or>
                       attribute e ''alt'' = Some t) (page_elements pg) = Some (n, element)"
    and c: "is_clickable pg n"
  from f c have "until_clickable pg XPATH (attribute_xpath t) = Some (n, element)"
    unfolding until_clickable_attribute [OF a] by (simp add: clickable_first_def)
  with s1 s2 s3 show "find_and_click_element (until_clickable pg) t
      = (Some (n, element), locator_stages t)"
    by (rule find_and_click_element_stage4)
qed

theorem locator_cascade_witness:
  "CHR 0x27 \<notin> set ''Menu'' \<and>
   until_clickable menu_page LINK_TEXT ''Menu'' = None \<and>
   until_clickable menu_page PARTIAL_LINK_TEXT ''Menu'' = None \<and>
   until_clickable menu_page XPATH (text_xpath ''Menu'') = None \<and>
   find (\<lambda>(i, e). attribute e ''aria-label'' = Some ''Menu'' \<or>
                   attribute e ''title'' = Some ''Menu'' \<or> attribute e ''alt'' = Some ''Menu'')
     (page_elements menu_page) = Some (2, Tag ''div'' [(''aria-label'', ''Menu'')] []) \<and>
   is_clickable menu_page 2 \<and>
   find_and_click_element (until_clickable menu_page) ''Menu''
     = (Some (2, Tag ''div'' [(''aria-label'', ''Menu'')] []), locator_stages ''Menu'') \<and>
   until_clickable menu_page LINK_TEXT ''Careers'' = None \<and>
   until_clickable menu_page PARTIAL_LINK_TEXT ''Careers'' = None \<and>
   until_clickable menu_page XPATH (text_xpath ''Careers'') = None \<and>
   until_clickable menu_page XPATH (attribute_xpath ''Careers'') = None \<and>
   find_and_click_element (until_clickable menu_page) ''Careers''
     = (None, locator_stages ''Careers'')"
proof -
  let ?W = "until_clickable menu_page"
  let ?e = "Tag ''div'' [(''aria-label'', ''Menu'')] []"
  have a: "CHR 0x27 \<notin> set ''Menu''" by simp
  have s1: "?W LINK_TEXT ''Menu'' = None"
    and s2: "?W PARTIAL_LINK_TEXT ''Menu'' = None"
    and s3: "?W XPATH (text_xpath ''Menu'') = None"
    and f: "find (\<lambda>(i, e). attribute e ''aria-label'' = Some ''Menu'' \<or>
                   attribute e ''title'' = Some ''Menu'' \<or> attribute e ''alt'' = Some ''Menu'')
     (page_elements menu_page) = Some (2, ?e)"
    and c: "is_clickable menu_page 2"
    and n1: "?W LINK_TEXT ''Careers'' = None"
    and n2: "?W PARTIAL_LINK_TEXT ''Careers'' = None"
    and n3: "?W XPATH (text_xpath ''Careers'') = None"
    and n4: "?W XPATH (attribute_xpath ''Careers'') = None"
    by code_simp+
  from locator_cascade [of ?W "''Menu''" menu_page 2 ?e] a s1 s2 s3 f c
  have r1: "find_and_click_element ?W ''Menu'' = (Some (2, ?e), locator_stages ''Menu'')"
    by blast
  from n1 n2 n3 n4 have "\<forall>(how, query)\<in>set (locator_stages ''Careers''). ?W how query = None"
    by (simp add: locator_stages_def)
  with locator_cascade [of ?W "''Careers''" menu_page 2 ?e]
  have r2: "find_and_click_element ?W ''Careers'' = (None, locator_stages ''Careers'')"
    by blast
  from a s1 s2 s3 f c r1 n1 n2 n3 n4 r2 show ?thesis by (intro conjI)
qed

section \<open>The navigation session\<close>

text \<open>
  Claim C3, as the specification states it, fails on the fresh session: no page is
  loaded there, and \<open>process_user_input\<close> answers every input without an address with the
  prompt to share one, before it looks at the navigation history. The reply is not the
  one for an empty history; the session is unchanged.
\<close>

theorem go_back_fresh_session_counterexample:
  "navigation_history fresh_session = [] \<and>
   current_page_content fresh_session = None \<and>
   go_back example_browser fresh_session = (share_url_reply, fresh_session) \<and>
   share_url_reply \<noteq> first_page_reply"
  by (simp add: go_back_def fresh_session_def share_url_reply_def first_page_reply_def)

text \<open>
  Claim C3, amended. Without a page loaded (the fresh session) \<open>go_back\<close> answers with
  the prompt to share an address and returns the session as it was. With a page loaded
  and an empty navigation history it answers that this is the first page and returns the
  session as it was. A click that succeeds (the element is found, the click and the
  extraction raise nothing) appends the address the session had before the click to the
  history, and only then replaces the page content and the address. If the browser then
  goes back without raising, \<open>go_back\<close> takes that address off the history again and
  makes it the current address: both are as before the click.
\<close>

theorem back_and_click_history:
  "(current_page_content s = None \<longrightarrow> go_back b s = (share_url_reply, s)) \<and>
   (current_page_content s \<noteq> None \<and> navigation_history s = [] \<longrightarrow>
      go_back b s = (first_page_reply, s)) \<and>
   (current_page_content s \<noteq> None \<and>
    fst (find_and_click_element (drv_wait b (driver s)) target) = Some element \<and>
    drv_click b (driver s) element = (d, None) \<and>
    extract_page_content b d (current_url s) = Inr page \<longrightarrow>
      click_link b target s =
        (get_compact_page_description b page,
         s\<lparr>status_message := Some (''Navigating to '' @ apostrophe @ target @ apostrophe @ ''...''),
           driver := d,
           navigation_history := navigation_history s @ [current_url s],
           current_page_content := Some page,
           current_url := Some (drv_current_url b d)\<rparr>) \<and>
      (drv_back b d = (d', None) \<longrightarrow>
         current_url (snd (go_back b (snd (click_link b target s)))) = current_url s \<and>
         navigation_history (snd (go_back b (snd (click_link b target s))))
           = navigation_history s))"
proof (intro conjI impI; (elim conjE)?)
  assume "current_page_content s = None"
  then show "go_back b s = (share_url_reply, s)" by (simp add: go_back_def)
next
  assume "current_page_content s \<noteq> None" and "navigation_history s = []"
  then show "go_back b s = (first_page_reply, s)" by (auto simp add: go_back_def)
next
  assume h: "current_page_content s \<noteq> None"
    "fst (find_and_click_element (drv_wait b (driver s)) target) = Some element"
    "drv_click b (driver s) element = (d, None)"
    "extract_page_content b d (current_url s) = Inr page"
  then show "click_link b target s =
        (get_compact_page_description b page,
         s\<lparr>status_message := Some (''Navigating to '' @ apostrophe @ target @ apostrophe @ ''...''),
           driver := d,
           navigation_history := navigation_history s @ [current_url s],
           current_page_content := Some page,
           current_url := Some (drv_current_url b d)\<rparr>)"
    by (auto simp add: click_link_def set_status_def Let_def)
next
  assume h: "current_page_content s \<noteq> None"
    "fst (find_and_click_element (drv_wait b (driver s)) target) = Some element"
    "drv_click b (driver s) element = (d, None)"
    "extract_page_content b d (current_url s) = Inr page"
    and bk: "drv_back b d = (d', None)"
  from h have c: "snd (click_link b target s) =
         s\<lparr>status_message := Some (''Navigating to '' @ apostrophe @ target @ apostrophe @ ''...''),
           driver := d,
           navigation_history := navigation_history s @ [current_url s],
           current_page_content := Some page,
           current_url := Some (drv_current_url b d)\<rparr>"
    by (auto simp add: click_link_def set_status_def Let_def)
  show "current_url (snd (go_back b (snd (click_link b target s)))) = current_url s"
    unfolding c using bk
    by (simp add: go_back_def set_status_def clear_status_def Let_def split: sum.splits)
  show "navigation_history (snd (go_back b (snd (click_link b target s)))) = navigation_history s"
    unfolding c using bk
    by (simp add: go_back_def set_status_def clear_status_def Let_def split: sum.splits)
qed

theorem back_and_click_history_witness:
  "current_page_content fresh_session = None \<and>
   go_back example_browser fresh_session = (share_url_reply, fresh_session) \<and>
   navigation_history loaded_session = [] \<and>
   go_back example_browser loaded_session = (first_page_reply, loaded_session) \<and>
   current_page_content loaded_session = Some ''https://shop.example'' \<and>
   fst (find_and_click_element (drv_wait example_browser (driver loaded_session)) ''Pricing'')
     = Some ''https://shop.example/pricing'' \<and>
   drv_click example_browser (driver loaded_session) ''https://shop.example/pricing''
     = (''https://shop.example/pricing'', None) \<and>
   extract_page_content example_browser ''https://shop.example/pricing''
       (current_url loaded_session)
     = Inr ''https://shop.example/pricing'' \<and>
   current_url loaded_session = Some ''https://shop.example'' \<and>
   navigation_history (snd (click_link example_browser ''Pricing'' loaded_session))
     = [Some ''https://shop.example''] \<and>
   current_url (snd (click_link example_browser ''Pricing'' loaded_session))
     = Some ''https://shop.example/pricing'' \<and>
   drv_back example_browser ''https://shop.example/pricing'' = (''https://shop.example'', None) \<and>
   current_url (snd (go_back example_browser
                       (snd (click_link example_browser ''Pricing'' loaded_session))))
     = Some ''https://shop.example'' \<and>
   navigation_history (snd (go_back example_browser
                              (snd (click_link example_browser ''Pricing'' loaded_session))))
     = []"
proof -
  let ?b = example_browser
  let ?p = "''https://shop.example/pricing''"
  have ne: "text_xpath ''Pricing'' \<noteq> attribute_xpath ''Pricing''"
    by code_simp
  have f: "current_page_content fresh_session = None"
    by (simp add: fresh_session_def)
  have n: "navigation_history loaded_session = []"
    and u: "current_url loaded_session = Some ''https://shop.example''"
    and h1: "current_page_content loaded_session = Some ''https://shop.example''"
    by (simp_all add: loaded_session_def fresh_session_def)
  from h1 have h1': "current_page_content loaded_session \<noteq> None" by simp
  have h2: "fst (find_and_click_element (drv_wait ?b (driver loaded_session)) ''Pricing'') = Some ?p"
    using ne by (simp add: find_and_click_element_def example_browser_def)
  have h3: "drv_click ?b (driver loaded_session) ?p = (?p, None)"
    and h4: "extract_page_content ?b ?p (current_url loaded_session) = Inr ?p"
    and h5: "drv_back ?b ?p = (''https://shop.example'', None)"
    and cu: "drv_current_url ?b ?p = ?p"
    by (simp_all add: example_browser_def)
  note T = back_and_click_history
  from T [of fresh_session ?b "''Pricing''" ?p ?p ?p ?p] f
  have rf: "go_back ?b fresh_session = (share_url_reply, fresh_session)"
    by blast
  from T [of loaded_session ?b "''Pricing''" ?p ?p ?p ?p] h1' n
  have r0: "go_back ?b loaded_session = (first_page_reply, loaded_session)"
    by blast
  note L = T [of loaded_session ?b "''Pricing''" ?p ?p ?p "''https://shop.example''"]
  from L h1' h2 h3 h4 have
    c: "click_link ?b ''Pricing'' loaded_session =
        (get_compact_page_description ?b ?p,
         loaded_session\<lparr>status_message :=
             Some (''Navigating to '' @ apostrophe @ ''Pricing'' @ apostrophe @ ''...''),
           driver := ?p,
           navigation_history := navigation_history loaded_session @ [current_url loaded_session],
           current_page_content := Some ?p,
           current_url := Some (drv_current_url ?b ?p)\<rparr>)"
    by blast
  from c have r1: "navigation_history (snd (click_link ?b ''Pricing'' loaded_session))
     = [Some ''https://shop.example'']"
    by (simp add: n u)
  from c have r2: "current_url (snd (click_link ?b ''Pricing'' loaded_session)) = Some ?p"
    by (simp add: cu)
  from L h1' h2 h3 h4 h5 have
    "current_url (snd (go_back ?b (snd (click_link ?b ''Pricing'' loaded_session))))
       = current_url loaded_session \<and>
     navigation_history (snd (go_back ?b (snd (click_link ?b ''Pricing'' loaded_session))))
       = navigation_history loaded_session"
    by blast
  then have r3: "current_url (snd (go_back ?b (snd (click_link ?b ''Pricing'' loaded_session))))
       = Some ''https://shop.example''"
    and r4: "navigation_history (snd (go_back ?b (snd (click_link ?b ''Pricing'' loaded_session))))
       = []"
    by (simp_all add: n u)
  from f rf n r0 h1 h2 h3 h4 u r1 r2 h5 r3 r4 show ?thesis by (intro conjI)
qed

text \<open>
  Claim C7, as the specification states it, fails for one field: \<open>navigate_to_url\<close> sets
  and then clears the status message, so a status that is shown when it is called (as
  \<open>process_user_input\<close> does just before the call) is gone after it.
\<close>

theorem navigate_to_url_counterexample:
  "status_message (set_status ''Navigating to shop.example...'' fresh_session)
     = Some ''Navigating to shop.example...'' \<and>
   status_message
     (snd (navigate_to_url example_browser ''shop.example''
             (set_status ''Navigating to shop.example...'' fresh_session)))
     = None"
  by (simp add: navigate_to_url_def set_status_def clear_status_def example_browser_def
        fresh_session_def Let_def)

text \<open>
  Claim C7, amended. Whatever happens, \<open>navigate_to_url\<close> leaves the navigation history,
  the current section and the conversation history as they were, and leaves no status
  message. When the browser loads the address and the extraction raises nothing, the only
  other changes are the state of the browser, the current address (the one asked for,
  with \<open>https://\<close> before it if it had no scheme) and the page content.
\<close>

theorem navigate_to_url_frame:
  "navigation_history (snd (navigate_to_url b url s)) = navigation_history s \<and>
   current_section (snd (navigate_to_url b url s)) = current_section s \<and>
   conversation_history (snd (navigate_to_url b url s)) = conversation_history s \<and>
   status_message (snd (navigate_to_url b url s)) = None \<and>
   (drv_get b (driver s) (with_scheme url) = (d, None) \<and>
    extract_page_content b d (Some (with_scheme url)) = Inr page \<longrightarrow>
      navigate_to_url b url s =
        (Inr page,
         s\<lparr>driver := d, current_url := Some (with_scheme url),
           current_page_content := Some page, status_message := None\<rparr>))"
proof -
  obtain d0 e0 where g: "drv_get b (driver s) (with_scheme url) = (d0, e0)"
    by (cases "drv_get b (driver s) (with_scheme url)")
  show ?thesis
  proof (cases e0)
    case (Some err)
    with g show ?thesis
      by (simp add: navigate_to_url_def set_status_def clear_status_def Let_def)
  next
    case None
    show ?thesis
    proof (cases "extract_page_content b d0 (Some (with_scheme url))")
      case (Inl err)
      with g None show ?thesis
        by (simp add: navigate_to_url_def set_status_def clear_status_def Let_def)
    next
      case (Inr p)
      with g None show ?thesis
        by (simp add: navigate_to_url_def set_status_def clear_status_def Let_def)
    qed
  qed
qed

theorem navigate_to_url_frame_witness:
  "with_scheme ''shop.example'' = ''https://shop.example'' \<and>
   drv_get example_browser (driver fresh_session) ''https://shop.example''
     = (''https://shop.example'', None) \<and>
   extract_page_content example_browser ''https://shop.example'' (Some ''https://shop.example'')
     = Inr ''https://shop.example'' \<and>
   navigate_to_url example_browser ''shop.example'' fresh_session
     = (Inr ''https://shop.example'', loaded_session) \<and>
   navigation_history loaded_session = []"
proof -
  have w: "with_scheme ''shop.example'' = ''https://shop.example''"
    by (simp add: with_scheme_def)
  have g: "drv_get example_browser (driver fresh_session) ''https://shop.example''
     = (''https://shop.example'', None)"
    and x: "extract_page_content example_browser ''https://shop.example''
       (Some ''https://shop.example'') = Inr ''https://shop.example''"
    by (simp_all add: example_browser_def)
  have n: "navigation_history loaded_session = []"
    by (simp add: loaded_session_def fresh_session_def)
  from navigate_to_url_frame
    [of example_browser "''shop.example''" fresh_session "''https://shop.example''"
        "''https://shop.example''"] g x
  have "navigate_to_url example_browser ''shop.example'' fresh_session =
        (Inr ''https://shop.example'',
         fresh_session\<lparr>driver := ''https://shop.example'',
           current_url := Some ''https://shop.example'',
           current_page_content := Some ''https://shop.example'', status_message := None\<rparr>)"
    unfolding w by blast
  then have r: "navigate_to_url example_browser ''shop.example'' fresh_session
     = (Inr ''https://shop.example'', loaded_session)"
    by (simp add: loaded_session_def fresh_session_def)
  from w g x r n show ?thesis by (intro conjI)
qed

end
